theory Spec2Isabelle
  imports Main "HOL-Library.Word" "HOL-Library.Multiset"
begin

unbundle bit_operations_syntax

section \<open>Character device base class (src/lib/cdev/CDev.cpp)\<close>

subsection \<open>Return codes\<close>

text \<open>
  The methods of \<^verbatim>\<open>CDev\<close> return \<^verbatim>\<open>int\<close> status codes. The macros are declared in
  headers outside \<^verbatim>\<open>src/\<close>; they carry their usual values (\<^verbatim>\<open>PX4_OK\<close> is 0,
  \<^verbatim>\<open>PX4_ERROR\<close> is -1, the errno numbers are those of NuttX and Linux).
\<close>

definition PX4_OK :: int where "PX4_OK = 0"
definition PX4_ERROR :: int where "PX4_ERROR = - 1"
definition EBADF :: int where "EBADF = 9"
definition ENOMEM :: int where "ENOMEM = 12"
definition EINVAL :: int where "EINVAL = 22"

subsection \<open>Pointers, waiter records and the memory they live in\<close>

text \<open>
  A pointer is an address; \<^verbatim>\<open>nullptr\<close> is address 0. The waiter record is
  \<^verbatim>\<open>px4_pollfd_struct_t\<close>: the code uses its fields \<^verbatim>\<open>events\<close>, \<^verbatim>\<open>revents\<close>,
  \<^verbatim>\<open>sem\<close> and \<^verbatim>\<open>priv\<close>. The width of \<^verbatim>\<open>pollevent_t\<close> is declared outside
  \<^verbatim>\<open>src/\<close> and is a type parameter here.
\<close>

type_synonym addr = nat

abbreviation nullptr :: addr where "nullptr \<equiv> 0"

record (overloaded) 'e pollfd =
  events :: "'e word"
  revents :: "'e word"
  sem :: addr
  priv :: addr

text \<open>
  Calls that leave the class: posts of a wake semaphore, the two lifecycle hooks and the
  registration of the device name. The world keeps them in call order.
\<close>

datatype call =
    SemPost addr
  | OpenFirst addr
  | CloseLast addr
  | RegisterDriver string

text \<open>
  The memory outside the device object: the waiter records (owned by the consumers), the
  counts of their semaphores, and the log of outgoing calls.
\<close>

record (overloaded) 'e world =
  fdmem :: "addr \<rightharpoonup> 'e pollfd"
  semmem :: "addr \<rightharpoonup> int"
  calls :: "call list"

text \<open>
  Undefined behaviour of the C++ program is a value: a dereference of a pointer that holds no
  object, an index beyond the allocated table, a read of a table entry that was never written.
\<close>

datatype fault = BadPointer | OutOfBounds | Uninitialised

subsection \<open>The device object\<close>

text \<open>
  The members of \<^verbatim>\<open>CDev\<close> that the code reads and writes. \<^verbatim>\<open>_max_pollwaiters\<close> is a
  \<^verbatim>\<open>uint8_t\<close> (the comment at the capacity check says so). \<^verbatim>\<open>_open_count\<close> is an
  unsigned counter whose width is declared outside \<^verbatim>\<open>src/\<close>: a type parameter.
  \<^verbatim>\<open>_pollset\<close> is the heap table of \<^verbatim>\<open>px4_pollfd_struct_t *\<close>: a list of entries, each
  either written (\<open>Some p\<close>) or still as \<^verbatim>\<open>new[]\<close> left it (\<open>None\<close>); the null table of
  a fresh device is the empty list. \<^verbatim>\<open>_lock\<close> only serialises callers and has no part in a
  sequential model.
\<close>

record (overloaded) 'c cdev =
  devname :: "string option"
  registered :: bool
  max_pollwaiters :: "8 word"
  open_count :: "'c word"
  pollset :: "addr option list"

definition new_cdev :: "string option \<Rightarrow> 'c::len cdev" where
  "new_cdev name =
     \<lparr>devname = name, registered = False, max_pollwaiters = 0, open_count = 0, pollset = []\<rparr>"

text \<open>Reading \<^verbatim>\<open>_pollset[i]\<close>.\<close>

definition rd_slot :: "addr option list \<Rightarrow> nat \<Rightarrow> fault + addr" where
  "rd_slot tab i =
     (if i < length tab
      then (case tab ! i of None \<Rightarrow> Inl Uninitialised | Some p \<Rightarrow> Inr p)
      else Inl OutOfBounds)"

subsection \<open>The waiter registry\<close>

text \<open>
  The scan of \<^verbatim>\<open>store_poll_waiter\<close>: \<^verbatim>\<open>for (unsigned i = 0; i < _max_pollwaiters; i++)\<close>,
  storing into the first null entry. \<open>Inr None\<close> means the loop ran to its end.
\<close>

function store_scan :: "'c::len cdev \<Rightarrow> addr \<Rightarrow> nat \<Rightarrow> fault + 'c cdev option" where
  "store_scan d fds i =
     (if i < unat (max_pollwaiters d)
      then (case rd_slot (pollset d) i of
              Inl f \<Rightarrow> Inl f
            | Inr p \<Rightarrow>
                if nullptr = p
                then Inr (Some (d\<lparr>pollset := (pollset d)[i := Some fds]\<rparr>))
                else store_scan d fds (i + 1))
      else Inr None)"
  by pat_completeness auto
termination
  by (relation "measure (\<lambda>(d, fds, i). unat (max_pollwaiters d) - i)") auto

text \<open>
  \<^verbatim>\<open>new px4_pollfd_struct_t *[n]\<close>: a table of \<open>n\<close> unwritten entries, or null when the
  allocator has no memory (the code tests for it).
\<close>

definition new_table :: "bool \<Rightarrow> nat \<Rightarrow> addr option list option" where
  "new_table alloc_ok n = (if alloc_ok then Some (replicate n None) else None)"

text \<open>\<^verbatim>\<open>memset(tab + off, 0, sizeof(entry) * n)\<close> and \<^verbatim>\<open>memcpy(dst, src, sizeof(entry) * n)\<close>.\<close>

definition memset_null :: "addr option list \<Rightarrow> nat \<Rightarrow> nat \<Rightarrow> fault + addr option list" where
  "memset_null tab off n =
     (if off + n \<le> length tab
      then Inr (take off tab @ replicate n (Some nullptr) @ drop (off + n) tab)
      else Inl OutOfBounds)"

definition memcpy :: "addr option list \<Rightarrow> addr option list \<Rightarrow> nat \<Rightarrow> fault + addr option list" where
  "memcpy dst src n =
     (if n \<le> length dst \<and> n \<le> length src
      then Inr (take n src @ drop n dst)
      else Inl OutOfBounds)"

definition wr_slot :: "addr option list \<Rightarrow> nat \<Rightarrow> addr \<Rightarrow> fault + addr option list" where
  "wr_slot tab i p = (if i < length tab then Inr (tab[i := Some p]) else Inl OutOfBounds)"

text \<open>
  \<^verbatim>\<open>CDev::store_poll_waiter\<close>. \<open>alloc_ok\<close> says whether the allocator can serve the one
  \<^verbatim>\<open>new[]\<close> of the call. The new count is computed in \<^verbatim>\<open>int\<close> and narrowed to
  \<^verbatim>\<open>uint8_t\<close>.
\<close>

definition store_poll_waiter :: "bool \<Rightarrow> 'c::len cdev \<Rightarrow> addr \<Rightarrow> fault + (int \<times> 'c cdev)" where
  "store_poll_waiter alloc_ok d fds =
     (case store_scan d fds 0 of
        Inl f \<Rightarrow> Inl f
      | Inr (Some d') \<Rightarrow> Inr (PX4_OK, d')
      | Inr None \<Rightarrow>
          if unat (max_pollwaiters d) \<ge> 256 div 2 then Inr (- ENOMEM, d)
          else
            let new_count :: 8 word =
                  (if max_pollwaiters d > 0 then word_of_nat (unat (max_pollwaiters d) * 2) else 1)
            in (case new_table alloc_ok (unat new_count) of
                  None \<Rightarrow> Inr (- ENOMEM, d)
                | Some fresh \<Rightarrow>
                    (case (if max_pollwaiters d > 0
                           then (case memset_null fresh (unat (max_pollwaiters d))
                                        (unat new_count - unat (max_pollwaiters d)) of
                                   Inl f \<Rightarrow> Inl f
                                 | Inr zeroed \<Rightarrow>
                                     memcpy zeroed (pollset d) (unat (max_pollwaiters d)))
                           else Inr fresh) of
                       Inl f \<Rightarrow> Inl f
                     | Inr new_pollset \<Rightarrow>
                         (case wr_slot new_pollset (unat (max_pollwaiters d)) fds of
                            Inl f \<Rightarrow> Inl f
                          | Inr tab \<Rightarrow>
                              Inr (PX4_OK, d\<lparr>pollset := tab, max_pollwaiters := new_count\<rparr>)))))"

text \<open>\<^verbatim>\<open>CDev::remove_poll_waiter\<close>: the first entry equal to \<^verbatim>\<open>fds\<close> is set to null.\<close>

function remove_scan :: "'c::len cdev \<Rightarrow> addr \<Rightarrow> nat \<Rightarrow> fault + (int \<times> 'c cdev)" where
  "remove_scan d fds i =
     (if i < unat (max_pollwaiters d)
      then (case rd_slot (pollset d) i of
              Inl f \<Rightarrow> Inl f
            | Inr p \<Rightarrow>
                if fds = p
                then Inr (PX4_OK, d\<lparr>pollset := (pollset d)[i := Some nullptr]\<rparr>)
                else remove_scan d fds (i + 1))
      else Inr (- EINVAL, d))"
  by pat_completeness auto
termination
  by (relation "measure (\<lambda>(d, fds, i). unat (max_pollwaiters d) - i)") auto

definition remove_poll_waiter :: "'c::len cdev \<Rightarrow> addr \<Rightarrow> fault + (int \<times> 'c cdev)" where
  "remove_poll_waiter d fds = remove_scan d fds 0"

subsection \<open>The notifier\<close>

text \<open>
  Modelled from the spec: \<^verbatim>\<open>px4_sem_post\<close> is not under \<^verbatim>\<open>src/\<close>. The spec calls it
  "post (increment/signal) the wake primitive": the count of the semaphore goes up by one.
  The call is logged.
\<close>

definition px4_sem_post :: "addr \<Rightarrow> 'e::len world \<Rightarrow> fault + 'e world" where
  "px4_sem_post s w =
     (case semmem w s of
        None \<Rightarrow> Inl BadPointer
      | Some c \<Rightarrow> Inr (w\<lparr>semmem := (semmem w)(s \<mapsto> c + 1), calls := calls w @ [SemPost s]\<rparr>))"

text \<open>
  The build decides how \<^verbatim>\<open>poll_notify_one\<close> peeks at the count of the semaphore: under
  \<^verbatim>\<open>__PX4_NUTTX\<close> it reads the field \<^verbatim>\<open>semcount\<close>; in every other build it calls
  \<^verbatim>\<open>px4_sem_getvalue\<close>, which on some platforms cannot report a count (the Boolean says
  whether it can).
\<close>

datatype build = NuttX | Posix bool

fun count_queryable :: "build \<Rightarrow> bool" where
  "count_queryable NuttX = True"
| "count_queryable (Posix can_report) = can_report"

text \<open>
  Modelled from the spec: \<^verbatim>\<open>px4_sem_getvalue\<close> is not under \<^verbatim>\<open>src/\<close>. The spec tells a
  signal with a queryable count from one that "has no queryable count": where the count can
  be reported the call writes it to \<^verbatim>\<open>*sval\<close>, where it cannot \<^verbatim>\<open>*sval\<close> keeps what the
  caller put there. The result is the content of \<^verbatim>\<open>*sval\<close> after the call.
\<close>

definition px4_sem_getvalue :: "bool \<Rightarrow> addr \<Rightarrow> int \<Rightarrow> 'e::len world \<Rightarrow> fault + int" where
  "px4_sem_getvalue can_report s sval w =
     (case semmem w s of
        None \<Rightarrow> Inl BadPointer
      | Some c \<Rightarrow> Inr (if can_report then c else sval))"

text \<open>
  The local \<^verbatim>\<open>value\<close> of \<^verbatim>\<open>poll_notify_one\<close>: \<^verbatim>\<open>fds->sem->semcount\<close> under
  \<^verbatim>\<open>__PX4_NUTTX\<close>, else -1 overwritten by \<^verbatim>\<open>px4_sem_getvalue\<close>.
\<close>

definition sem_value :: "build \<Rightarrow> addr \<Rightarrow> 'e::len world \<Rightarrow> fault + int" where
  "sem_value b s w =
     (case b of
        NuttX \<Rightarrow> (case semmem w s of None \<Rightarrow> Inl BadPointer | Some c \<Rightarrow> Inr c)
      | Posix can_report \<Rightarrow> px4_sem_getvalue can_report s (- 1) w)"

text \<open>\<^verbatim>\<open>CDev::poll_notify_one\<close>.\<close>

definition poll_notify_one :: "build \<Rightarrow> addr \<Rightarrow> 'e::len word \<Rightarrow> 'e world \<Rightarrow> fault + 'e world" where
  "poll_notify_one b fds ev w =
     (case fdmem w fds of
        None \<Rightarrow> Inl BadPointer
      | Some f \<Rightarrow>
          (case sem_value b (sem f) w of
             Inl e \<Rightarrow> Inl e
           | Inr val \<Rightarrow>
               let f' = f\<lparr>revents := revents f OR (events f AND ev)\<rparr>;
                   w' = w\<lparr>fdmem := (fdmem w)(fds \<mapsto> f')\<rparr>
               in if revents f' \<noteq> 0 \<and> val \<le> 0 then px4_sem_post (sem f') w' else Inr w'))"

text \<open>
  \<^verbatim>\<open>CDev::poll_notify\<close>: \<^verbatim>\<open>for (unsigned i = 0; i < _max_pollwaiters; i++)\<close> over the table,
  calling \<^verbatim>\<open>poll_notify_one\<close> on every entry that is not null.
\<close>

function poll_notify_loop ::
  "build \<Rightarrow> 'c::len cdev \<Rightarrow> 'e::len word \<Rightarrow> nat \<Rightarrow> 'e world \<Rightarrow> fault + 'e world" where
  "poll_notify_loop b d ev i w =
     (if i < unat (max_pollwaiters d)
      then (case rd_slot (pollset d) i of
              Inl e \<Rightarrow> Inl e
            | Inr p \<Rightarrow>
                if nullptr \<noteq> p
                then (case poll_notify_one b p ev w of
                        Inl e \<Rightarrow> Inl e
                      | Inr w' \<Rightarrow> poll_notify_loop b d ev (i + 1) w')
                else poll_notify_loop b d ev (i + 1) w)
      else Inr w)"
  by pat_completeness auto
termination
  by (relation "measure (\<lambda>(q, d, ev, i, w). unat (max_pollwaiters d) - i)") auto

definition poll_notify :: "build \<Rightarrow> 'c::len cdev \<Rightarrow> 'e::len word \<Rightarrow> 'e world \<Rightarrow> fault + 'e world" where
  "poll_notify b d ev w = poll_notify_loop b d ev 0 w"

text \<open>\<^verbatim>\<open>CDev::poll_state\<close>, the default of the virtual method: no events.\<close>

definition poll_state :: "addr \<Rightarrow> 'e::len word" where
  "poll_state filep = 0"

text \<open>
  \<^verbatim>\<open>CDev::poll\<close>. The virtual \<^verbatim>\<open>poll_state\<close> of the concrete driver is the parameter
  \<open>poll_state_hook\<close>.
\<close>

definition poll ::
  "(addr \<Rightarrow> 'e::len word) \<Rightarrow> bool \<Rightarrow> addr \<Rightarrow> addr \<Rightarrow> bool \<Rightarrow> 'c::len cdev \<times> 'e world
     \<Rightarrow> fault + (int \<times> 'c cdev \<times> 'e world)" where
  "poll poll_state_hook alloc_ok filep fds setup s =
     (case s of (d, w) \<Rightarrow>
        if setup
        then (case fdmem w fds of
                None \<Rightarrow> Inl BadPointer
              | Some f \<Rightarrow>
                  let w1 = w\<lparr>fdmem := (fdmem w)(fds \<mapsto> f\<lparr>priv := filep\<rparr>)\<rparr>
                  in (case store_poll_waiter alloc_ok d fds of
                        Inl e \<Rightarrow> Inl e
                      | Inr (ret, d') \<Rightarrow>
                          if ret = PX4_OK
                          then (case fdmem w1 fds of
                                  None \<Rightarrow> Inl BadPointer
                                | Some g \<Rightarrow>
                                    let g' = g\<lparr>revents :=
                                                 revents g OR (events g AND poll_state_hook filep)\<rparr>;
                                        w2 = w1\<lparr>fdmem := (fdmem w1)(fds \<mapsto> g')\<rparr>
                                    in if revents g' \<noteq> 0
                                       then (case px4_sem_post (sem g') w2 of
                                               Inl e \<Rightarrow> Inl e
                                             | Inr w3 \<Rightarrow> Inr (ret, d', w3))
                                       else Inr (ret, d', w2))
                          else Inr (ret, d', w1)))
        else (case remove_poll_waiter d fds of
                Inl e \<Rightarrow> Inl e
              | Inr (ret, d') \<Rightarrow> Inr (ret, d', w)))"

subsection \<open>The lifecycle: init, open, close\<close>

text \<open>
  \<^verbatim>\<open>CDev::init\<close>. \<^verbatim>\<open>register_driver\<close> belongs to the namespace, outside \<^verbatim>\<open>src/\<close>: its
  answer for a name is a parameter, and each call is logged.
\<close>

definition init :: "(string \<Rightarrow> int) \<Rightarrow> 'c::len cdev \<times> 'e::len world \<Rightarrow> int \<times> 'c cdev \<times> 'e world" where
  "init register_driver s =
     (case s of (d, w) \<Rightarrow>
        (case devname d of
           Some name \<Rightarrow>
             let w1 = w\<lparr>calls := calls w @ [RegisterDriver name]\<rparr>
             in if register_driver name = PX4_OK
                then (PX4_OK, d\<lparr>registered := True\<rparr>, w1)
                else (PX4_ERROR, d, w1)
         | None \<Rightarrow> (PX4_ERROR, d, w)))"

text \<open>The defaults of the two virtual hooks.\<close>

definition open_first :: "addr \<Rightarrow> int" where
  "open_first filep = PX4_OK"

definition close_last :: "addr \<Rightarrow> int" where
  "close_last filep = PX4_OK"

text \<open>
  \<^verbatim>\<open>CDev::open\<close> and \<^verbatim>\<open>CDev::close\<close>. The hook of the concrete driver is a parameter; the
  model takes its return value and logs the call.
\<close>

definition open_dev ::
  "(addr \<Rightarrow> int) \<Rightarrow> addr \<Rightarrow> 'c::len cdev \<times> 'e::len world \<Rightarrow> int \<times> 'c cdev \<times> 'e world" where
  "open_dev open_first_hook filep s =
     (case s of (d, w) \<Rightarrow>
        let d1 = d\<lparr>open_count := open_count d + 1\<rparr>
        in if open_count d1 = 1
           then let w1 = w\<lparr>calls := calls w @ [OpenFirst filep]\<rparr>;
                    ret = open_first_hook filep
                in if ret \<noteq> PX4_OK
                   then (ret, d1\<lparr>open_count := open_count d1 - 1\<rparr>, w1)
                   else (ret, d1, w1)
           else (PX4_OK, d1, w))"

definition close ::
  "(addr \<Rightarrow> int) \<Rightarrow> addr \<Rightarrow> 'c::len cdev \<times> 'e::len world \<Rightarrow> int \<times> 'c cdev \<times> 'e world" where
  "close close_last_hook filep s =
     (case s of (d, w) \<Rightarrow>
        if open_count d > 0
        then let d1 = d\<lparr>open_count := open_count d - 1\<rparr>
             in if open_count d1 = 0
                then (close_last_hook filep, d1, w\<lparr>calls := calls w @ [CloseLast filep]\<rparr>)
                else (PX4_OK, d1, w)
        else (- EBADF, d, w))"

section \<open>Vocabulary of the properties\<close>

text \<open>
  The representation invariant of the table: \<^verbatim>\<open>_pollset\<close> has \<^verbatim>\<open>_max_pollwaiters\<close>
  entries and every one of them has been written.
\<close>

definition table_ok :: "'c::len cdev \<Rightarrow> bool" where
  "table_ok d \<longleftrightarrow>
     length (pollset d) = unat (max_pollwaiters d) \<and> None \<notin> set (pollset d)"

text \<open>The occupied slots of a table, in slot order.\<close>

fun occupied :: "addr option list \<Rightarrow> addr list" where
  "occupied [] = []"
| "occupied (c # cs) =
     (case c of
        None \<Rightarrow> occupied cs
      | Some p \<Rightarrow> if p \<noteq> nullptr then p # occupied cs else occupied cs)"

text \<open>
  A registered waiter is valid memory while the registry holds it: the record exists and so
  does its semaphore.
\<close>

definition waiter_valid :: "'e::len world \<Rightarrow> addr \<Rightarrow> bool" where
  "waiter_valid w p \<longleftrightarrow>
     (case fdmem w p of None \<Rightarrow> False | Some f \<Rightarrow> semmem w (sem f) \<noteq> None)"

text \<open>
  The notifier in the spec's words. One visit: OR the intersection of the events of interest
  with the mask into the ready events; post once if the result is non-empty and the count is
  at most 0 or cannot be queried. \<open>notifyAll_spec\<close> visits the occupied slots in slot order.
\<close>

definition visit_spec :: "bool \<Rightarrow> 'e::len word \<Rightarrow> addr \<Rightarrow> 'e world \<Rightarrow> 'e world" where
  "visit_spec queryable m p w =
     (case fdmem w p of
        None \<Rightarrow> w
      | Some f \<Rightarrow>
          (case semmem w (sem f) of
             None \<Rightarrow> w
           | Some c \<Rightarrow>
               let ready = revents f OR (events f AND m);
                   post = (ready \<noteq> 0 \<and> (c \<le> 0 \<or> \<not> queryable))
               in w\<lparr>fdmem := (fdmem w)(p \<mapsto> f\<lparr>revents := ready\<rparr>),
                    semmem := (if post then (semmem w)(sem f \<mapsto> c + 1) else semmem w),
                    calls := calls w @ (if post then [SemPost (sem f)] else [])\<rparr>))"

definition notifyAll_spec :: "bool \<Rightarrow> 'e::len word \<Rightarrow> addr list \<Rightarrow> 'e world \<Rightarrow> 'e world" where
  "notifyAll_spec queryable m ps w = fold (visit_spec queryable m) ps w"

text \<open>The capacity after a growth, in the spec's words: double, and 1 when growing from 0.\<close>

definition grown_count :: "8 word \<Rightarrow> 8 word" where
  "grown_count n = (if n = 0 then 1 else 2 * n)"

text \<open>
  Sequences of registry operations, with the multiset of the references that a successful
  \<^verbatim>\<open>store_poll_waiter\<close> has stored and no successful \<^verbatim>\<open>remove_poll_waiter\<close> has taken
  out since.
\<close>

datatype reg_op = Add bool addr | Remove addr

fun reg_step :: "reg_op \<Rightarrow> 'c::len cdev \<times> addr multiset \<Rightarrow> fault + ('c cdev \<times> addr multiset)" where
  "reg_step (Add alloc_ok r) (d, live) =
     (case store_poll_waiter alloc_ok d r of
        Inl f \<Rightarrow> Inl f
      | Inr (ret, d') \<Rightarrow> Inr (d', if ret = PX4_OK then add_mset r live else live))"
| "reg_step (Remove r) (d, live) =
     (case remove_poll_waiter d r of
        Inl f \<Rightarrow> Inl f
      | Inr (ret, d') \<Rightarrow> Inr (d', if ret = PX4_OK then live - {#r#} else live))"

fun reg_run :: "reg_op list \<Rightarrow> 'c::len cdev \<times> addr multiset \<Rightarrow> fault + ('c cdev \<times> addr multiset)" where
  "reg_run [] s = Inr s"
| "reg_run (x # xs) s = (case reg_step x s of Inl f \<Rightarrow> Inl f | Inr s' \<Rightarrow> reg_run xs s')"

definition reg_inv :: "'c::len cdev \<times> addr multiset \<Rightarrow> bool" where
  "reg_inv s \<longleftrightarrow>
     table_ok (fst s) \<and>
     mset (occupied (pollset (fst s))) = filter_mset (\<lambda>r. r \<noteq> nullptr) (snd s)"

subsection \<open>Example states\<close>

text \<open>
  Three registries for the worked examples: one with a hole at slot 1 and the same reference
  in two slots, one that is full at capacity 2, one that is full at the maximum capacity.
\<close>

definition table3 :: "16 cdev" where
  "table3 = (new_cdev None)\<lparr>max_pollwaiters := 4, pollset := [Some 5, Some 0, Some 7, Some 5]\<rparr>"

definition table_full :: "16 cdev" where
  "table_full = (new_cdev None)\<lparr>max_pollwaiters := 2, pollset := [Some 5, Some 7]\<rparr>"

definition table_max :: "16 cdev" where
  "table_max = (new_cdev None)\<lparr>max_pollwaiters := 128, pollset := replicate 128 (Some 5)\<rparr>"

text \<open>
  A short life of a registry: two registrations (each one grows the table), a third that
  finds no memory, a removal, and the removal of a reference that was never registered.
\<close>

definition churn :: "reg_op list" where
  "churn = [Add True 5, Add True 7, Add False 9, Remove 5, Remove 6]"

definition churned :: "16 cdev" where
  "churned = (new_cdev None)\<lparr>max_pollwaiters := 2, pollset := [Some 0, Some 7]\<rparr>"

text \<open>
  Two event bits for the examples (the bit assignments belong to the concrete driver), and a
  registry of three waiters with a hole at slot 1: one waits for reading and sleeps, one
  waits for writing, one waits for reading and has its semaphore already posted.
  \<open>three_waiters_notified\<close> is the world after \<^verbatim>\<open>poll_notify(EVENT_READ)\<close>.
\<close>

definition EVENT_READ :: "16 word" where "EVENT_READ = 1"
definition EVENT_WRITE :: "16 word" where "EVENT_WRITE = 4"

definition three_waiters :: "16 cdev" where
  "three_waiters =
     (new_cdev None)\<lparr>max_pollwaiters := 4, pollset := [Some 1, Some 0, Some 2, Some 3]\<rparr>"

definition three_waiters_world :: "16 world" where
  "three_waiters_world =
     \<lparr>fdmem = [1 \<mapsto> \<lparr>events = EVENT_READ, revents = 0, sem = 11, priv = 0\<rparr>,
               2 \<mapsto> \<lparr>events = EVENT_WRITE, revents = 0, sem = 12, priv = 0\<rparr>,
               3 \<mapsto> \<lparr>events = EVENT_READ, revents = 0, sem = 13, priv = 0\<rparr>],
      semmem = [11 \<mapsto> 0, 12 \<mapsto> 0, 13 \<mapsto> 1],
      calls = []\<rparr>"

definition three_waiters_notified :: "16 world" where
  "three_waiters_notified =
     \<lparr>fdmem = [1 \<mapsto> \<lparr>events = EVENT_READ, revents = EVENT_READ, sem = 11, priv = 0\<rparr>,
               2 \<mapsto> \<lparr>events = EVENT_WRITE, revents = 0, sem = 12, priv = 0\<rparr>,
               3 \<mapsto> \<lparr>events = EVENT_READ, revents = EVENT_READ, sem = 13, priv = 0\<rparr>],
      semmem = [11 \<mapsto> 1, 12 \<mapsto> 0, 13 \<mapsto> 1],
      calls = [SemPost 11]\<rparr>"

text \<open>
  The same notification in a build that cannot query the count: the third waiter is posted
  too.
\<close>

definition three_waiters_notified_blind :: "16 world" where
  "three_waiters_notified_blind =
     \<lparr>fdmem = [1 \<mapsto> \<lparr>events = EVENT_READ, revents = EVENT_READ, sem = 11, priv = 0\<rparr>,
               2 \<mapsto> \<lparr>events = EVENT_WRITE, revents = 0, sem = 12, priv = 0\<rparr>,
               3 \<mapsto> \<lparr>events = EVENT_READ, revents = EVENT_READ, sem = 13, priv = 0\<rparr>],
      semmem = [11 \<mapsto> 1, 12 \<mapsto> 0, 13 \<mapsto> 2],
      calls = [SemPost 11, SemPost 13]\<rparr>"

text \<open>
  A waiter that waits for reading, whose ready events still hold the read event of an earlier
  notification, and whose semaphore count is back at 0.
\<close>

definition stale_waiter :: "16 cdev" where
  "stale_waiter = (new_cdev None)\<lparr>max_pollwaiters := 1, pollset := [Some 1]\<rparr>"

definition stale_waiter_world :: "16 world" where
  "stale_waiter_world =
     \<lparr>fdmem = [1 \<mapsto> \<lparr>events = EVENT_READ, revents = EVENT_READ, sem = 11, priv = 0\<rparr>],
      semmem = [11 \<mapsto> 0],
      calls = []\<rparr>"

subsection \<open>Sequences of open and close calls\<close>

text \<open>
  An open or a close call carries the hook of the concrete driver and the file pointer.
  \<open>life_run\<close> runs the code over a sequence of calls.
\<close>

datatype life_op = Open "addr \<Rightarrow> int" addr | Close "addr \<Rightarrow> int" addr

fun life_step :: "life_op \<Rightarrow> 'c::len cdev \<times> 'e::len world \<Rightarrow> 'c cdev \<times> 'e world" where
  "life_step (Open hook filep) s = snd (open_dev hook filep s)"
| "life_step (Close hook filep) s = snd (close hook filep s)"

fun life_run :: "life_op list \<Rightarrow> 'c::len cdev \<times> 'e::len world \<Rightarrow> 'c cdev \<times> 'e world" where
  "life_run [] s = s"
| "life_run (x # xs) s = life_run xs (life_step x s)"

text \<open>
  The lifecycle in the spec's words, on the open count alone: an open increments, invokes
  the first-open hook when the count goes from 0 to 1 and rolls back when the hook fails; a
  close fails at 0, else decrements and invokes the last-close hook when the count reaches 0.
  The result is the final count and the hook calls in order.
\<close>

fun life_spec :: "life_op list \<Rightarrow> 'c::len word \<Rightarrow> 'c word \<times> call list" where
  "life_spec [] n = (n, [])"
| "life_spec (Open hook filep # ops) n =
     (let rest = life_spec ops (if n = 0 \<and> hook filep \<noteq> PX4_OK then n else n + 1)
      in (fst rest, (if n = 0 then [OpenFirst filep] else []) @ snd rest))"
| "life_spec (Close hook filep # ops) n =
     (let rest = life_spec ops (if n = 0 then n else n - 1)
      in (fst rest, (if n = 1 then [CloseLast filep] else []) @ snd rest))"

text \<open>
  Hooks and worlds for the examples: a hook that accepts and one that declines, a namespace
  that accepts every name and one that refuses, an empty world, and a day in the life of a
  device.
\<close>

definition accept :: "addr \<Rightarrow> int" where "accept filep = PX4_OK"
definition decline :: "addr \<Rightarrow> int" where "decline filep = - EINVAL"

definition no_world :: "16 world" where
  "no_world = \<lparr>fdmem = Map.empty, semmem = Map.empty, calls = []\<rparr>"

definition busy_day :: "life_op list" where
  "busy_day = [Open decline 1, Open accept 2, Open accept 3, Close accept 4, Close decline 5,
               Close accept 6]"

definition bind_ok :: "string \<Rightarrow> int" where "bind_ok name = PX4_OK"
definition bind_refused :: "string \<Rightarrow> int" where "bind_refused name = PX4_ERROR"

definition named_dev :: "16 cdev" where
  "named_dev = new_cdev (Some ''/dev/example'')"

text \<open>
  A driver whose device is readable at the moment of the poll setup, and a world with one
  consumer that waits for reading.
\<close>

definition readable_now :: "addr \<Rightarrow> 16 word" where
  "readable_now filep = EVENT_READ"

definition one_reader_world :: "16 world" where
  "one_reader_world =
     \<lparr>fdmem = [1 \<mapsto> \<lparr>events = EVENT_READ, revents = 0, sem = 11, priv = 0\<rparr>],
      semmem = [11 \<mapsto> 0],
      calls = []\<rparr>"

section \<open>Properties\<close>

subsection \<open>Scanning the table\<close>

lemma rd_slot_ok:
  assumes "table_ok d" "i < unat (max_pollwaiters d)"
  shows "\<exists>p. pollset d ! i = Some p \<and> rd_slot (pollset d) i = Inr p"
proof -
  from assms have len: "i < length (pollset d)" by (simp add: table_ok_def)
  then have "pollset d ! i \<in> set (pollset d)" by (rule nth_mem)
  moreover from assms(1) have "None \<notin> set (pollset d)" by (simp add: table_ok_def)
  ultimately have "pollset d ! i \<noteq> None" by metis
  then obtain p where "pollset d ! i = Some p" by blast
  with len show ?thesis by (simp add: rd_slot_def)
qed

lemma store_scan_full:
  "table_ok d \<Longrightarrow> \<forall>j. i \<le> j \<and> j < unat (max_pollwaiters d) \<longrightarrow> pollset d ! j \<noteq> Some nullptr
   \<Longrightarrow> store_scan d fds i = Inr None"
proof (induction d fds i rule: store_scan.induct)
  case (1 d fds i)
  show ?case
  proof (cases "i < unat (max_pollwaiters d)")
    case False
    then show ?thesis by (subst store_scan.simps) simp
  next
    case True
    from rd_slot_ok [OF "1.prems"(1) True] obtain p
      where p: "pollset d ! i = Some p" "rd_slot (pollset d) i = Inr p" by blast
    from "1.prems"(2) True p have np: "p \<noteq> 0" by auto
    have "store_scan d fds (i + 1) = Inr None"
      using "1.IH" [OF True p(2)] np "1.prems" by auto
    then show ?thesis using True p np by (subst store_scan.simps) simp
  qed
qed

lemma store_scan_found:
  "table_ok d \<Longrightarrow> i \<le> k \<Longrightarrow> k < unat (max_pollwaiters d) \<Longrightarrow> pollset d ! k = Some nullptr
   \<Longrightarrow> \<forall>j. i \<le> j \<and> j < k \<longrightarrow> pollset d ! j \<noteq> Some nullptr
   \<Longrightarrow> store_scan d fds i = Inr (Some (d\<lparr>pollset := (pollset d)[k := Some fds]\<rparr>))"
proof (induction d fds i rule: store_scan.induct)
  case (1 d fds i)
  have True: "i < unat (max_pollwaiters d)" using "1.prems" by simp
  from rd_slot_ok [OF "1.prems"(1) True] obtain p
    where p: "pollset d ! i = Some p" "rd_slot (pollset d) i = Inr p" by blast
  show ?case
  proof (cases "i = k")
    case True
    with p "1.prems" have "p = 0" by simp
    then show ?thesis using \<open>i < unat (max_pollwaiters d)\<close> p True by (subst store_scan.simps) simp
  next
    case False
    with "1.prems" have lt: "i < k" by simp
    with "1.prems" p have np: "p \<noteq> 0" by auto
    have "store_scan d fds (i + 1) = Inr (Some (d\<lparr>pollset := (pollset d)[k := Some fds]\<rparr>))"
      using "1.IH" [OF True p(2)] np "1.prems" lt by auto
    then show ?thesis using True p np by (subst store_scan.simps) simp
  qed
qed

lemma remove_scan_absent:
  "table_ok d \<Longrightarrow> \<forall>j. i \<le> j \<and> j < unat (max_pollwaiters d) \<longrightarrow> pollset d ! j \<noteq> Some fds
   \<Longrightarrow> remove_scan d fds i = Inr (- EINVAL, d)"
proof (induction d fds i rule: remove_scan.induct)
  case (1 d fds i)
  show ?case
  proof (cases "i < unat (max_pollwaiters d)")
    case False
    then show ?thesis by (subst remove_scan.simps) simp
  next
    case True
    from rd_slot_ok [OF "1.prems"(1) True] obtain p
      where p: "pollset d ! i = Some p" "rd_slot (pollset d) i = Inr p" by blast
    from "1.prems"(2) True p have np: "fds \<noteq> p" by auto
    have "remove_scan d fds (i + 1) = Inr (- EINVAL, d)"
      using "1.IH" [OF True p(2)] np "1.prems" by auto
    then show ?thesis using True p np by (subst remove_scan.simps) simp
  qed
qed

lemma remove_scan_found:
  "table_ok d \<Longrightarrow> i \<le> k \<Longrightarrow> k < unat (max_pollwaiters d) \<Longrightarrow> pollset d ! k = Some fds
   \<Longrightarrow> \<forall>j. i \<le> j \<and> j < k \<longrightarrow> pollset d ! j \<noteq> Some fds
   \<Longrightarrow> remove_scan d fds i = Inr (PX4_OK, d\<lparr>pollset := (pollset d)[k := Some nullptr]\<rparr>)"
proof (induction d fds i rule: remove_scan.induct)
  case (1 d fds i)
  have True: "i < unat (max_pollwaiters d)" using "1.prems" by simp
  from rd_slot_ok [OF "1.prems"(1) True] obtain p
    where p: "pollset d ! i = Some p" "rd_slot (pollset d) i = Inr p" by blast
  show ?case
  proof (cases "i = k")
    case True
    with p "1.prems" have "fds = p" by simp
    then show ?thesis using \<open>i < unat (max_pollwaiters d)\<close> p True by (subst remove_scan.simps) simp
  next
    case False
    with "1.prems" have lt: "i < k" by simp
    with "1.prems" p have np: "fds \<noteq> p" by auto
    have "remove_scan d fds (i + 1) = Inr (PX4_OK, d\<lparr>pollset := (pollset d)[k := Some nullptr]\<rparr>)"
      using "1.IH" [OF True p(2)] np "1.prems" lt by auto
    then show ?thesis using True p np by (subst remove_scan.simps) simp
  qed
qed



subsection \<open>The notifier visits the occupied slots in order\<close>

lemma poll_notify_one_valid:
  "waiter_valid w p \<Longrightarrow> poll_notify_one b p m w = Inr (visit_spec (count_queryable b) m p w)"
  by (cases b)
    (auto simp: waiter_valid_def poll_notify_one_def visit_spec_def sem_value_def
      px4_sem_getvalue_def px4_sem_post_def
      Let_def split: option.splits)

lemma visit_spec_valid:
  "waiter_valid w p' \<Longrightarrow> waiter_valid (visit_spec q m p w) p'"
  by (auto simp: waiter_valid_def visit_spec_def Let_def split: option.splits)

lemma occupied_drop:
  "i < length tab \<Longrightarrow> tab ! i = Some p \<Longrightarrow>
   occupied (drop i tab) = (if p \<noteq> nullptr then p # occupied (drop (Suc i) tab) else occupied (drop (Suc i) tab))"
  by (simp flip: Cons_nth_drop_Suc)

lemma poll_notify_loop_spec:
  "table_ok d \<Longrightarrow> \<forall>p \<in> set (occupied (drop i (pollset d))). waiter_valid w p
   \<Longrightarrow> poll_notify_loop q d m i w = Inr (notifyAll_spec (count_queryable q) m (occupied (drop i (pollset d))) w)"
proof (induction q d m i w rule: poll_notify_loop.induct)
  case (1 q d m i w)
  show ?case
  proof (cases "i < unat (max_pollwaiters d)")
    case False
    with "1.prems"(1) have "drop i (pollset d) = []" by (simp add: table_ok_def)
    with False show ?thesis by (subst poll_notify_loop.simps) (simp add: notifyAll_spec_def)
  next
    case True
    from rd_slot_ok [OF "1.prems"(1) True] obtain p
      where p: "pollset d ! i = Some p" "rd_slot (pollset d) i = Inr p" by blast
    from True "1.prems"(1) have len: "i < length (pollset d)" by (simp add: table_ok_def)
    note occ = occupied_drop [OF len p(1)]
    show ?thesis
    proof (cases "p = nullptr")
      case True
      have "poll_notify_loop q d m (i + 1) w =
              Inr (notifyAll_spec (count_queryable q) m (occupied (drop (i + 1) (pollset d))) w)"
        using "1.IH"(2) [OF \<open>i < unat (max_pollwaiters d)\<close> p(2)] True "1.prems" occ by simp
      then show ?thesis
        using \<open>i < unat (max_pollwaiters d)\<close> p True occ
        by (subst poll_notify_loop.simps) simp
    next
      case False
      with occ "1.prems"(2) have v: "waiter_valid w p" by simp
      let ?w' = "visit_spec (count_queryable q) m p w"
      have one: "poll_notify_one q p m w = Inr ?w'" by (rule poll_notify_one_valid [OF v])
      have rest: "\<forall>p' \<in> set (occupied (drop (i + 1) (pollset d))). waiter_valid ?w' p'"
        using "1.prems"(2) occ False by (simp add: visit_spec_valid)
      have "poll_notify_loop q d m (i + 1) ?w' =
              Inr (notifyAll_spec (count_queryable q) m (occupied (drop (i + 1) (pollset d))) ?w')"
        using "1.IH"(1) [OF True p(2) _ one "1.prems"(1) rest] False by simp
      then show ?thesis
        using True p False occ one
        by (subst poll_notify_loop.simps) (simp add: notifyAll_spec_def)
    qed
  qed
qed


subsection \<open>The cases of store_poll_waiter\<close>

lemma store_poll_waiter_free:
  assumes "table_ok d" "k < unat (max_pollwaiters d)" "pollset d ! k = Some nullptr"
    "\<forall>j<k. pollset d ! j \<noteq> Some nullptr"
  shows "store_poll_waiter a d r = Inr (PX4_OK, d\<lparr>pollset := (pollset d)[k := Some r]\<rparr>)"
  using store_scan_found [OF assms(1) _ assms(2,3), of 0 r] assms(4)
  by (simp add: store_poll_waiter_def)

lemma store_poll_waiter_exhausted:
  assumes "table_ok d" "\<forall>j < unat (max_pollwaiters d). pollset d ! j \<noteq> Some nullptr"
    "128 \<le> unat (max_pollwaiters d)"
  shows "store_poll_waiter a d r = Inr (- ENOMEM, d)"
  using store_scan_full [OF assms(1), of 0 r] assms(2,3)
  by (simp add: store_poll_waiter_def)

lemma store_poll_waiter_nomem:
  assumes "table_ok d" "\<forall>j < unat (max_pollwaiters d). pollset d ! j \<noteq> Some nullptr"
  shows "store_poll_waiter False d r = Inr (- ENOMEM, d)"
  using store_scan_full [OF assms(1), of 0 r] assms(2)
  by (simp add: store_poll_waiter_def new_table_def Let_def)

lemma unat_doubled:
  fixes n :: "8 word"
  assumes "unat n < 128"
  shows "unat (2 * n) = 2 * unat n"
  using assms by (simp add: unat_word_ariths)

lemma store_poll_waiter_grow:
  assumes ok: "table_ok d" and full: "\<forall>j < unat (max_pollwaiters d). pollset d ! j \<noteq> Some nullptr"
    and lt: "unat (max_pollwaiters d) < 128"
  shows "store_poll_waiter True d r =
           Inr (PX4_OK, d\<lparr>pollset := pollset d @ Some r #
                                      replicate (unat (grown_count (max_pollwaiters d))
                                                   - unat (max_pollwaiters d) - 1) (Some nullptr),
                            max_pollwaiters := grown_count (max_pollwaiters d)\<rparr>)"
proof -
  let ?n = "max_pollwaiters d"
  have scan: "store_scan d r 0 = Inr None"
    using store_scan_full [OF ok, of 0 r] full by simp
  have len: "length (pollset d) = unat ?n" using ok by (simp add: table_ok_def)
  show ?thesis
  proof (cases "?n = 0")
    case True
    then have "pollset d = []" using len by simp
    with True scan show ?thesis
      by (simp add: store_poll_waiter_def new_table_def Let_def wr_slot_def grown_count_def)
  next
    case False
    then have pos: "0 < ?n" "0 < unat ?n" by (simp_all add: word_greater_zero_iff unat_gt_0)
    note dbl = unat_doubled [OF lt]
    have gc: "grown_count ?n = 2 * ?n" using False by (simp add: grown_count_def)
    have ugc: "unat (2 * ?n) = 2 * unat ?n" by (rule dbl)
    have won: "(word_of_nat (unat ?n * 2) :: 8 word) = 2 * ?n" by simp
    have upd: "(pollset d @ replicate (unat ?n) (Some nullptr))[unat ?n := Some r]
                 = pollset d @ Some r # replicate (unat ?n - 1) (Some nullptr)"
      using len pos(2) by (cases "unat ?n") (simp_all add: list_update_append)
    show ?thesis
      using scan lt pos len upd
      by (simp add: store_poll_waiter_def new_table_def Let_def wr_slot_def gc ugc won
          memset_null_def memcpy_def del: of_nat_mult)
  qed
qed

lemma first_index:
  fixes P :: "nat \<Rightarrow> bool"
  assumes "\<exists>k<n. P k"
  shows "\<exists>k<n. P k \<and> (\<forall>j<k. \<not> P j)"
proof -
  from assms obtain k where k: "k < n" "P k" by blast
  define m where "m = (LEAST i. P i)"
  have "P m" unfolding m_def using k(2) by (rule LeastI)
  moreover have "m \<le> k" unfolding m_def using k(2) by (rule Least_le)
  moreover have "\<not> P j" if "j < m" for j
    using that unfolding m_def by (rule not_less_Least)
  ultimately have "m < n \<and> P m \<and> (\<forall>j<m. \<not> P j)" using k(1) by simp
  then show ?thesis by (rule exI [of _ m])
qed

lemma occupied_append: "occupied (xs @ ys) = occupied xs @ occupied ys"
  by (induction xs) (auto split: option.splits)

lemma occupied_replicate_null: "occupied (replicate n (Some nullptr)) = []"
  by (induction n) auto

lemma occupied_update:
  "k < length xs \<Longrightarrow>
   mset (occupied (xs[k := c])) + mset (occupied [xs ! k]) = mset (occupied xs) + mset (occupied [c])"
proof (induction xs arbitrary: k)
  case Nil
  then show ?case by simp
next
  case (Cons x xs)
  show ?case
  proof (cases k)
    case 0
    then show ?thesis by (auto split: option.splits)
  next
    case (Suc k')
    with Cons.prems have "k' < length xs" by simp
    from Cons.IH [OF this] Suc show ?thesis by (auto split: option.splits)
  qed
qed

lemma table_ok_update:
  assumes "table_ok d"
  shows "table_ok (d\<lparr>pollset := (pollset d)[k := Some r]\<rparr>)"
proof -
  have "set ((pollset d)[k := Some r]) \<subseteq> insert (Some r) (set (pollset d))"
    by (rule set_update_subset_insert)
  then have "None \<notin> set ((pollset d)[k := Some r])"
    using assms by (auto simp: table_ok_def)
  then show ?thesis using assms by (auto simp: table_ok_def)
qed

lemma table_ok_grown:
  assumes "table_ok d" "unat (max_pollwaiters d) < 128"
  shows "table_ok (d\<lparr>pollset := pollset d @ Some r #
                                      replicate (unat (grown_count (max_pollwaiters d))
                                                   - unat (max_pollwaiters d) - 1) (Some nullptr),
                            max_pollwaiters := grown_count (max_pollwaiters d)\<rparr>)"
proof -
  let ?n = "max_pollwaiters d"
  have len: "length (pollset d) = unat ?n" and init: "None \<notin> set (pollset d)"
    using assms(1) by (auto simp: table_ok_def)
  have cnt: "unat (grown_count ?n) = unat ?n + 1 + (unat (grown_count ?n) - unat ?n - 1)"
  proof (cases "?n = 0")
    case True
    then show ?thesis by (simp add: grown_count_def)
  next
    case False
    then have "0 < unat ?n" by (simp add: unat_gt_0)
    moreover have "unat (grown_count ?n) = 2 * unat ?n"
      using False unat_doubled [OF assms(2)] by (simp add: grown_count_def)
    ultimately show ?thesis by simp
  qed
  have "length (pollset d @ Some r # replicate (unat (grown_count ?n) - unat ?n - 1) (Some nullptr))
          = unat (grown_count ?n)"
    using len cnt by simp
  moreover have "None \<notin> set (pollset d @ Some r #
                   replicate (unat (grown_count ?n) - unat ?n - 1) (Some nullptr))"
    using init by auto
  ultimately show ?thesis by (auto simp: table_ok_def)
qed

lemma store_poll_waiter_cases:
  assumes ok: "table_ok d"
  shows "(\<exists>k < unat (max_pollwaiters d). pollset d ! k = Some nullptr \<and>
            store_poll_waiter a d r = Inr (PX4_OK, d\<lparr>pollset := (pollset d)[k := Some r]\<rparr>))
         \<or> ((\<forall>j < unat (max_pollwaiters d). pollset d ! j \<noteq> Some nullptr) \<and>
             store_poll_waiter a d r =
               (if 128 \<le> unat (max_pollwaiters d) \<or> \<not> a then Inr (- ENOMEM, d)
                else Inr (PX4_OK, d\<lparr>pollset := pollset d @ Some r #
                                      replicate (unat (grown_count (max_pollwaiters d))
                                                   - unat (max_pollwaiters d) - 1) (Some nullptr),
                            max_pollwaiters := grown_count (max_pollwaiters d)\<rparr>)))"
proof (cases "\<exists>k < unat (max_pollwaiters d). pollset d ! k = Some nullptr")
  case True
  from first_index [OF this] obtain k where k: "k < unat (max_pollwaiters d)"
    "pollset d ! k = Some nullptr" "\<forall>j<k. pollset d ! j \<noteq> Some nullptr" by blast
  from store_poll_waiter_free [OF ok k] k(1,2) show ?thesis by blast
next
  case False
  then have full: "\<forall>j < unat (max_pollwaiters d). pollset d ! j \<noteq> Some nullptr" by blast
  show ?thesis
  proof (cases "128 \<le> unat (max_pollwaiters d)")
    case True
    with store_poll_waiter_exhausted [OF ok full True] full show ?thesis by simp
  next
    case big: False
    show ?thesis
    proof (cases a)
      case True
      with store_poll_waiter_grow [OF ok full] big full show ?thesis by simp
    next
      case False
      with store_poll_waiter_nomem [OF ok full] full show ?thesis by simp
    qed
  qed
qed

lemma remove_poll_waiter_cases:
  assumes ok: "table_ok d"
  shows "(\<exists>k < unat (max_pollwaiters d). pollset d ! k = Some r \<and>
            remove_poll_waiter d r = Inr (PX4_OK, d\<lparr>pollset := (pollset d)[k := Some nullptr]\<rparr>))
         \<or> ((\<forall>j < unat (max_pollwaiters d). pollset d ! j \<noteq> Some r) \<and>
             remove_poll_waiter d r = Inr (- EINVAL, d))"
proof (cases "\<exists>k < unat (max_pollwaiters d). pollset d ! k = Some r")
  case True
  from first_index [OF this] obtain k where k: "k < unat (max_pollwaiters d)"
    "pollset d ! k = Some r" "\<forall>j<k. pollset d ! j \<noteq> Some r" by blast
  from remove_scan_found [OF ok _ k(1,2), of 0] k show ?thesis
    by (auto simp: remove_poll_waiter_def)
next
  case False
  then have "\<forall>j < unat (max_pollwaiters d). pollset d ! j \<noteq> Some r" by blast
  with remove_scan_absent [OF ok, of 0 r] show ?thesis by (simp add: remove_poll_waiter_def)
qed


lemma unat_grown_count:
  assumes "unat n < 128"
  shows "unat (grown_count n) = (if unat n = 0 then 1 else 2 * unat n)"
proof (cases "n = 0")
  case True
  then show ?thesis by (simp add: grown_count_def)
next
  case False
  then have "unat n \<noteq> 0" by (simp add: unat_eq_0)
  with False unat_doubled [OF assms] show ?thesis by (simp add: grown_count_def)
qed

lemma table3_ok: "table_ok table3"
  by (simp add: table_ok_def table3_def new_cdev_def)

lemma table_full_ok: "table_ok table_full"
  by (simp add: table_ok_def table_full_def new_cdev_def)

lemma table_max_ok: "table_ok table_max"
  by (simp add: table_ok_def table_max_def new_cdev_def)

subsection \<open>Sequences of registry operations keep the table well formed\<close>

lemma reg_step_inv:
  assumes "reg_inv s"
  shows "\<exists>s'. reg_step x s = Inr s' \<and> reg_inv s'"
proof -
  obtain d live where s: "s = (d, live)" by (cases s)
  from assms s have ok: "table_ok d"
    and ms: "mset (occupied (pollset d)) = filter_mset (\<lambda>r. r \<noteq> nullptr) live"
    by (simp_all add: reg_inv_def)
  have len: "length (pollset d) = unat (max_pollwaiters d)" using ok by (simp add: table_ok_def)
  show ?thesis
  proof (cases x)
    case (Add a r)
    from store_poll_waiter_cases [OF ok, of a r] show ?thesis
    proof (elim disjE exE conjE)
      fix k assume k: "k < unat (max_pollwaiters d)" "pollset d ! k = Some nullptr"
        and st: "store_poll_waiter a d r = Inr (PX4_OK, d\<lparr>pollset := (pollset d)[k := Some r]\<rparr>)"
      from occupied_update [of k "pollset d" "Some r"] k len ms
      have "mset (occupied ((pollset d)[k := Some r])) =
              filter_mset (\<lambda>r. r \<noteq> nullptr) (add_mset r live)" by simp
      with st s Add table_ok_update [OF ok] show ?thesis by (simp add: reg_inv_def)
    next
      assume full: "\<forall>j < unat (max_pollwaiters d). pollset d ! j \<noteq> Some nullptr"
        and st: "store_poll_waiter a d r =
               (if 128 \<le> unat (max_pollwaiters d) \<or> \<not> a then Inr (- ENOMEM, d)
                else Inr (PX4_OK, d\<lparr>pollset := pollset d @ Some r #
                                      replicate (unat (grown_count (max_pollwaiters d))
                                                   - unat (max_pollwaiters d) - 1) (Some nullptr),
                            max_pollwaiters := grown_count (max_pollwaiters d)\<rparr>))"
      show ?thesis
      proof (cases "128 \<le> unat (max_pollwaiters d) \<or> \<not> a")
        case True
        with st s Add assms show ?thesis by (simp add: PX4_OK_def ENOMEM_def)
      next
        case False
        then have lt: "unat (max_pollwaiters d) < 128" by simp
        from False st s Add ms table_ok_grown [OF ok lt, of r] show ?thesis
          by (simp add: reg_inv_def occupied_append occupied_replicate_null)
      qed
    qed
  next
    case (Remove r)
    from remove_poll_waiter_cases [OF ok, of r] show ?thesis
    proof (elim disjE exE conjE)
      fix k assume k: "k < unat (max_pollwaiters d)" "pollset d ! k = Some r"
        and st: "remove_poll_waiter d r = Inr (PX4_OK, d\<lparr>pollset := (pollset d)[k := Some nullptr]\<rparr>)"
      from occupied_update [of k "pollset d" "Some nullptr"] k len
      have "mset (occupied ((pollset d)[k := Some nullptr])) + mset (occupied [Some r]) =
              mset (occupied (pollset d))" by simp
      then have "mset (occupied ((pollset d)[k := Some nullptr])) =
              mset (occupied (pollset d)) - mset (occupied [Some r])"
        by (metis add_diff_cancel_right')
      with ms have "mset (occupied ((pollset d)[k := Some nullptr])) =
              filter_mset (\<lambda>r. r \<noteq> nullptr) (live - {#r#})"
        by (simp add: filter_diff_mset)
      with st s Remove table_ok_update [OF ok] show ?thesis by (simp add: reg_inv_def)
    next
      assume "remove_poll_waiter d r = Inr (- EINVAL, d)"
      with s Remove assms show ?thesis by (simp add: PX4_OK_def EINVAL_def)
    qed
  qed
qed

lemma reg_run_inv:
  "reg_inv s \<Longrightarrow> \<exists>s'. reg_run ops s = Inr s' \<and> reg_inv s'"
proof (induction ops arbitrary: s)
  case Nil
  then show ?case by simp
next
  case (Cons x xs)
  from reg_step_inv [OF Cons.prems, of x] obtain s1 where s1: "reg_step x s = Inr s1" "reg_inv s1"
    by blast
  from Cons.IH [OF s1(2)] s1(1) show ?case by simp
qed


subsection \<open>Adding and removing waiters\<close>

text \<open>
  C3. \<^verbatim>\<open>store_poll_waiter\<close> (add) with a waiter reference \<open>r\<close>, on a well-formed table:
  if some slot below the capacity is empty, \<open>r\<close> goes into the first such slot and OK is
  returned, capacity and all other slots unchanged. If every slot is occupied and the capacity
  has reached 128, \<^verbatim>\<open>-ENOMEM\<close> is returned and nothing changes. Otherwise the call
  allocates the replacement table: if the allocation succeeds the capacity doubles (1 when
  growing from 0, and the doubled value fits the \<^verbatim>\<open>uint8_t\<close>), the old slots keep their
  contents at their indices, the first new slot receives \<open>r\<close>, the other new slots are
  empty, and OK is returned; if the allocation fails \<^verbatim>\<open>-ENOMEM\<close> is returned and nothing
  changes.
\<close>

theorem store_poll_waiter_cases_by_design:
  assumes "table_ok d"
  shows "(\<forall>k. k < unat (max_pollwaiters d) \<and> pollset d ! k = Some nullptr \<and>
              (\<forall>j<k. pollset d ! j \<noteq> Some nullptr) \<longrightarrow>
            store_poll_waiter a d r = Inr (PX4_OK, d\<lparr>pollset := (pollset d)[k := Some r]\<rparr>)) \<and>
         ((\<forall>j < unat (max_pollwaiters d). pollset d ! j \<noteq> Some nullptr) \<longrightarrow>
            store_poll_waiter a d r =
              (if 128 \<le> unat (max_pollwaiters d) then Inr (- ENOMEM, d)
               else if a
               then Inr (PX4_OK,
                         d\<lparr>pollset := pollset d @ Some r #
                                replicate (unat (grown_count (max_pollwaiters d))
                                             - unat (max_pollwaiters d) - 1) (Some nullptr),
                           max_pollwaiters := grown_count (max_pollwaiters d)\<rparr>)
               else Inr (- ENOMEM, d)) \<and>
            (unat (max_pollwaiters d) < 128 \<longrightarrow>
               unat (grown_count (max_pollwaiters d)) =
                 (if unat (max_pollwaiters d) = 0 then 1 else 2 * unat (max_pollwaiters d))))"
proof (intro conjI allI impI)
  fix k
  assume "k < unat (max_pollwaiters d) \<and> pollset d ! k = Some nullptr \<and>
              (\<forall>j<k. pollset d ! j \<noteq> Some nullptr)"
  then show "store_poll_waiter a d r = Inr (PX4_OK, d\<lparr>pollset := (pollset d)[k := Some r]\<rparr>)"
    using store_poll_waiter_free [OF assms, of k a r] by simp
next
  assume full: "\<forall>j < unat (max_pollwaiters d). pollset d ! j \<noteq> Some nullptr"
  show "store_poll_waiter a d r =
              (if 128 \<le> unat (max_pollwaiters d) then Inr (- ENOMEM, d)
               else if a
               then Inr (PX4_OK,
                         d\<lparr>pollset := pollset d @ Some r #
                                replicate (unat (grown_count (max_pollwaiters d))
                                             - unat (max_pollwaiters d) - 1) (Some nullptr),
                           max_pollwaiters := grown_count (max_pollwaiters d)\<rparr>)
               else Inr (- ENOMEM, d))"
  proof (cases "128 \<le> unat (max_pollwaiters d)")
    case True
    with store_poll_waiter_exhausted [OF assms full True] show ?thesis by simp
  next
    case False
    then have lt: "unat (max_pollwaiters d) < 128" by simp
    show ?thesis
    proof (cases a)
      case True
      with store_poll_waiter_grow [OF assms full lt] False show ?thesis by simp
    next
      case na: False
      with store_poll_waiter_nomem [OF assms full] False show ?thesis by simp
    qed
  qed
next
  assume "unat (max_pollwaiters d) < 128"
  then show "unat (grown_count (max_pollwaiters d)) =
                 (if unat (max_pollwaiters d) = 0 then 1 else 2 * unat (max_pollwaiters d))"
    by (rule unat_grown_count)
qed

theorem store_poll_waiter_cases_by_design_witness:
  "store_poll_waiter False table3 9 = Inr (PX4_OK, table3\<lparr>pollset := [Some 5, Some 9, Some 7, Some 5]\<rparr>) \<and>
   store_poll_waiter True table_full 9 =
     Inr (PX4_OK, table_full\<lparr>pollset := [Some 5, Some 7, Some 9, Some 0], max_pollwaiters := 4\<rparr>) \<and>
   store_poll_waiter False table_full 9 = Inr (- ENOMEM, table_full) \<and>
   store_poll_waiter True table_max 9 = Inr (- ENOMEM, table_max)"
proof -
  have a: "1 < unat (max_pollwaiters table3) \<and> pollset table3 ! 1 = Some nullptr \<and>
             (\<forall>j<1. pollset table3 ! j \<noteq> Some nullptr)"
    by (simp add: table3_def)
  from store_poll_waiter_cases_by_design [OF table3_ok, of False 9] a
  have 1: "store_poll_waiter False table3 9 =
             Inr (PX4_OK, table3\<lparr>pollset := (pollset table3)[1 := Some 9]\<rparr>)"
    by blast
  have b: "\<forall>j < unat (max_pollwaiters table_full). pollset table_full ! j \<noteq> Some nullptr"
    by (simp add: table_full_def nth_Cons split: nat.splits)
  have gc: "grown_count (max_pollwaiters table_full) = 4" "unat (max_pollwaiters table_full) = 2"
    by (simp_all add: table_full_def grown_count_def)
  from store_poll_waiter_cases_by_design [OF table_full_ok, of True 9] b gc
  have 2: "store_poll_waiter True table_full 9 =
     Inr (PX4_OK, table_full\<lparr>pollset := [Some 5, Some 7, Some 9, Some 0], max_pollwaiters := 4\<rparr>)"
    by (simp add: table_full_def)
  from store_poll_waiter_cases_by_design [OF table_full_ok, of False 9] b gc
  have 3: "store_poll_waiter False table_full 9 = Inr (- ENOMEM, table_full)"
    by simp
  have c: "\<forall>j < unat (max_pollwaiters table_max). pollset table_max ! j \<noteq> Some nullptr"
    by (simp add: table_max_def)
  have "unat (max_pollwaiters table_max) = 128" by (simp add: table_max_def)
  with store_poll_waiter_cases_by_design [OF table_max_ok, of True 9] c
  have 4: "store_poll_waiter True table_max 9 = Inr (- ENOMEM, table_max)"
    by simp
  from 1 2 3 4 show ?thesis by (simp add: table3_def)
qed

text \<open>
  The claim as first stated promises growth and OK whenever the table is full below the
  maximum. On a fresh device whose allocator has no memory, the call returns
  \<^verbatim>\<open>-ENOMEM\<close> and the capacity stays 0.
\<close>

theorem store_poll_waiter_growth_counterexample:
  "store_poll_waiter False (new_cdev None :: 16 cdev) 9 = Inr (- ENOMEM, new_cdev None) \<and>
   store_poll_waiter False (new_cdev None :: 16 cdev) 9 \<noteq>
     Inr (PX4_OK, (new_cdev None)\<lparr>pollset := [Some 9], max_pollwaiters := 1\<rparr>)"
proof -
  have "store_scan (new_cdev None :: 16 cdev) 9 0 = Inr None"
    by (subst store_scan.simps) (simp add: new_cdev_def)
  then have "store_poll_waiter False (new_cdev None :: 16 cdev) 9 = Inr (- ENOMEM, new_cdev None)"
    by (simp add: store_poll_waiter_def new_table_def new_cdev_def Let_def)
  then show ?thesis by (simp add: PX4_OK_def ENOMEM_def)
qed

text \<open>
  C7. \<^verbatim>\<open>remove_poll_waiter\<close> (remove) with a waiter reference \<open>r\<close>, on a well-formed
  table: the slots are scanned in order; if some slot equals \<open>r\<close>, the first such slot is
  set to null and OK is returned, capacity and all other slots unchanged; if no slot equals
  \<open>r\<close>, the call returns \<^verbatim>\<open>-EINVAL\<close> and leaves capacity and every slot unchanged.
\<close>

theorem remove_poll_waiter_clears_first_match:
  assumes "table_ok d"
  shows "(\<forall>k. k < unat (max_pollwaiters d) \<and> pollset d ! k = Some r \<and>
              (\<forall>j<k. pollset d ! j \<noteq> Some r) \<longrightarrow>
            remove_poll_waiter d r = Inr (PX4_OK, d\<lparr>pollset := (pollset d)[k := Some nullptr]\<rparr>)) \<and>
         ((\<forall>j < unat (max_pollwaiters d). pollset d ! j \<noteq> Some r) \<longrightarrow>
            remove_poll_waiter d r = Inr (- EINVAL, d))"
proof (intro conjI allI impI)
  fix k
  assume "k < unat (max_pollwaiters d) \<and> pollset d ! k = Some r \<and>
              (\<forall>j<k. pollset d ! j \<noteq> Some r)"
  then show "remove_poll_waiter d r = Inr (PX4_OK, d\<lparr>pollset := (pollset d)[k := Some nullptr]\<rparr>)"
    using remove_scan_found [OF assms, of 0 k r] by (simp add: remove_poll_waiter_def)
next
  assume "\<forall>j < unat (max_pollwaiters d). pollset d ! j \<noteq> Some r"
  then show "remove_poll_waiter d r = Inr (- EINVAL, d)"
    using remove_scan_absent [OF assms, of 0 r] by (simp add: remove_poll_waiter_def)
qed

theorem remove_poll_waiter_clears_first_match_witness:
  "remove_poll_waiter table3 5 = Inr (PX4_OK, table3\<lparr>pollset := [Some 0, Some 0, Some 7, Some 5]\<rparr>) \<and>
   remove_poll_waiter table3 7 = Inr (PX4_OK, table3\<lparr>pollset := [Some 5, Some 0, Some 0, Some 5]\<rparr>) \<and>
   remove_poll_waiter table3 9 = Inr (- EINVAL, table3)"
proof -
  have c: "2 < unat (max_pollwaiters table3) \<and> pollset table3 ! 2 = Some 7 \<and>
             (\<forall>j<2. pollset table3 ! j \<noteq> Some 7)"
    by (simp add: table3_def nth_Cons split: nat.splits)
  from remove_poll_waiter_clears_first_match [OF table3_ok, of 7] c
  have c': "remove_poll_waiter table3 7 = Inr (PX4_OK, table3\<lparr>pollset := (pollset table3)[2 := Some nullptr]\<rparr>)"
    by blast
  have a: "0 < unat (max_pollwaiters table3) \<and> pollset table3 ! 0 = Some 5 \<and>
             (\<forall>j<0. pollset table3 ! j \<noteq> Some 5)"
    by (simp add: table3_def)
  have b: "\<forall>j < unat (max_pollwaiters table3). pollset table3 ! j \<noteq> Some 9"
    by (simp add: table3_def nth_Cons split: nat.splits)
  from remove_poll_waiter_clears_first_match [OF table3_ok, of 5] a
  have "remove_poll_waiter table3 5 = Inr (PX4_OK, table3\<lparr>pollset := (pollset table3)[0 := Some nullptr]\<rparr>)"
    by blast
  moreover from remove_poll_waiter_clears_first_match [OF table3_ok, of 9] b
  have "remove_poll_waiter table3 9 = Inr (- EINVAL, table3)" by blast
  ultimately show ?thesis using c' by (simp add: table3_def)
qed

subsection \<open>Registries reached from a fresh device\<close>

lemma reg_inv_new: "reg_inv (new_cdev name, {#})"
  by (simp add: reg_inv_def table_ok_def new_cdev_def)

lemma poll_notify_one_faults:
  "poll_notify_one q p m w = Inl e \<Longrightarrow> e = BadPointer"
  by (auto simp: poll_notify_one_def sem_value_def px4_sem_getvalue_def px4_sem_post_def Let_def
      split: option.splits sum.splits if_splits build.splits)

lemma poll_notify_loop_faults:
  "table_ok d \<Longrightarrow> poll_notify_loop q d m i w = Inl e \<Longrightarrow> e = BadPointer"
proof (induction q d m i w rule: poll_notify_loop.induct)
  case (1 q d m i w)
  show ?case
  proof (cases "i < unat (max_pollwaiters d)")
    case False
    with "1.prems"(2) show ?thesis by (subst (asm) poll_notify_loop.simps) simp
  next
    case True
    from rd_slot_ok [OF "1.prems"(1) True] obtain p
      where p: "pollset d ! i = Some p" "rd_slot (pollset d) i = Inr p" by blast
    show ?thesis
    proof (cases "p = nullptr")
      case pn: True
      from "1.prems"(2) True p pn have "poll_notify_loop q d m (i + 1) w = Inl e"
        by (subst (asm) poll_notify_loop.simps) simp
      with "1.IH"(2) [OF True p(2)] pn "1.prems"(1) show ?thesis by simp
    next
      case pn: False
      show ?thesis
      proof (cases "poll_notify_one q p m w")
        case (Inl e')
        with "1.prems"(2) True p pn have "e = e'"
          by (subst (asm) poll_notify_loop.simps) simp
        with Inl poll_notify_one_faults show ?thesis by blast
      next
        case (Inr w')
        with "1.prems"(2) True p pn have "poll_notify_loop q d m (i + 1) w' = Inl e"
          by (subst (asm) poll_notify_loop.simps) simp
        with "1.IH"(1) [OF True p(2) _ Inr] pn "1.prems"(1) show ?thesis by simp
      qed
    qed
  qed
qed

lemma churn_run:
  "reg_run churn (new_cdev None :: 16 cdev, {#}) = Inr (churned, {#7#})"
  by (simp add: churn_def churned_def new_cdev_def store_poll_waiter_def remove_poll_waiter_def
      rd_slot_def new_table_def memset_null_def memcpy_def wr_slot_def Let_def
      PX4_OK_def ENOMEM_def EINVAL_def)

text \<open>
  C10. After every sequence of \<^verbatim>\<open>store_poll_waiter\<close> and \<^verbatim>\<open>remove_poll_waiter\<close> calls on a
  fresh device, whatever the allocator answers: no call faults; the table has exactly
  \<^verbatim>\<open>_max_pollwaiters\<close> entries; the non-null entries are, with multiplicity, the references
  stored by a successful add and not removed since; every index below the capacity reads a
  written entry (null or a reference); and \<^verbatim>\<open>poll_notify\<close> on that table never reads an
  unwritten entry nor an index beyond the table.
\<close>

theorem registry_slots_always_initialised:
  "\<exists>d live. reg_run ops (new_cdev name :: 'c::len cdev, {#}) = Inr (d, live) \<and>
      length (pollset d) = unat (max_pollwaiters d) \<and>
      mset (occupied (pollset d)) = filter_mset (\<lambda>r. r \<noteq> nullptr) live \<and>
      (\<forall>i < unat (max_pollwaiters d). \<exists>p. rd_slot (pollset d) i = Inr p) \<and>
      (\<forall>b m w. poll_notify b d m (w :: 'e::len world) \<noteq> Inl Uninitialised \<and>
                poll_notify b d m w \<noteq> Inl OutOfBounds)"
proof -
  from reg_run_inv [OF reg_inv_new, of ops name] obtain d live
    where run: "reg_run ops (new_cdev name :: 'c cdev, {#}) = Inr (d, live)"
      and inv: "reg_inv (d, live)"
    by (metis surj_pair)
  from inv have ok: "table_ok d"
    and ms: "mset (occupied (pollset d)) = filter_mset (\<lambda>r. r \<noteq> nullptr) live"
    by (simp_all add: reg_inv_def)
  have rd: "\<forall>i < unat (max_pollwaiters d). \<exists>p. rd_slot (pollset d) i = Inr p"
    using rd_slot_ok [OF ok] by blast
  have nf: "poll_notify b d m w \<noteq> Inl Uninitialised \<and> poll_notify b d m w \<noteq> Inl OutOfBounds"
    for b m and w :: "'e world"
    using poll_notify_loop_faults [OF ok, of b m 0 w] by (auto simp: poll_notify_def)
  have len: "length (pollset d) = unat (max_pollwaiters d)" using ok by (simp add: table_ok_def)
  show ?thesis
    by (rule exI [of _ d], rule exI [of _ live]) (simp add: run len ms rd nf)
qed

theorem registry_slots_always_initialised_witness:
  "reg_run churn (new_cdev None :: 16 cdev, {#}) = Inr (churned, {#7#}) \<and>
   occupied (pollset churned) = [7] \<and>
   rd_slot (pollset churned) 0 = Inr 0 \<and> rd_slot (pollset churned) 1 = Inr 7"
proof -
  from registry_slots_always_initialised [of churn None, where 'c = 16 and 'e = 16]
  obtain d live where "reg_run churn (new_cdev None :: 16 cdev, {#}) = Inr (d, live)"
    and "mset (occupied (pollset d)) = filter_mset (\<lambda>r. r \<noteq> nullptr) live"
    by blast
  with churn_run have "mset (occupied (pollset churned)) = {#7#}" by simp
  then have "occupied (pollset churned) = [7]" by simp
  moreover have "rd_slot (pollset churned) 0 = Inr 0" "rd_slot (pollset churned) 1 = Inr 7"
    by (simp_all add: churned_def rd_slot_def)
  ultimately show ?thesis using churn_run by simp
qed

subsection \<open>What a notification leaves in the waiter records and semaphores\<close>

lemma visit_spec_fdmem:
  assumes "fdmem w a = Some f" "semmem w (sem f) = Some c"
  shows "fdmem (visit_spec q m a w) = (fdmem w)(a \<mapsto> f\<lparr>revents := revents f OR (events f AND m)\<rparr>)"
  using assms by (simp add: visit_spec_def Let_def)

lemma notifyAll_spec_fdmem:
  "\<forall>p \<in> set ps. waiter_valid w p \<Longrightarrow>
   fdmem (notifyAll_spec q m ps w) p =
     (if p \<in> set ps
      then map_option (\<lambda>f. f\<lparr>revents := revents f OR (events f AND m)\<rparr>) (fdmem w p)
      else fdmem w p)"
proof (induction ps arbitrary: w)
  case Nil
  then show ?case by (simp add: notifyAll_spec_def)
next
  case (Cons a ps)
  from Cons.prems have "waiter_valid w a" by simp
  then obtain f c where f: "fdmem w a = Some f" "semmem w (sem f) = Some c"
    by (auto simp: waiter_valid_def split: option.splits)
  let ?w1 = "visit_spec q m a w"
  have rest: "\<forall>p \<in> set ps. waiter_valid ?w1 p"
    using Cons.prems by (simp add: visit_spec_valid)
  have unfold: "notifyAll_spec q m (a # ps) w = notifyAll_spec q m ps ?w1"
    by (simp add: notifyAll_spec_def)
  show ?case
    unfolding unfold Cons.IH [OF rest] visit_spec_fdmem [OF f]
    using f(1) by (auto simp: or.assoc)
qed

lemma visit_spec_other_sem:
  assumes "fdmem w a = Some g" "semmem w (sem g) = Some c" "sem g \<noteq> s"
  shows "semmem (visit_spec q m a w) s = semmem w s"
    and "filter (\<lambda>x. x = SemPost s) (calls (visit_spec q m a w)) =
         filter (\<lambda>x. x = SemPost s) (calls w)"
  using assms by (simp_all add: visit_spec_def Let_def)

lemma visit_spec_idle:
  assumes "fdmem w a = Some g" "semmem w (sem g) = Some c" "revents g = 0" "events g AND m = 0"
  shows "visit_spec q m a w = w"
  using assms by (simp add: visit_spec_def Let_def map_upd_triv)

lemma notifyAll_spec_sem_untouched:
  assumes "\<forall>a \<in> set ps. waiter_valid w a"
    and "\<forall>a \<in> set ps. \<forall>g. fdmem w a = Some g \<and> sem g = s \<longrightarrow> revents g = 0 \<and> events g AND m = 0"
  shows "semmem (notifyAll_spec q m ps w) s = semmem w s \<and>
         filter (\<lambda>x. x = SemPost s) (calls (notifyAll_spec q m ps w)) =
         filter (\<lambda>x. x = SemPost s) (calls w)"
  using assms
proof (induction ps arbitrary: w)
  case Nil
  then show ?case by (simp add: notifyAll_spec_def)
next
  case (Cons a ps)
  from Cons.prems(1) have "waiter_valid w a" by simp
  then obtain g c where g: "fdmem w a = Some g" "semmem w (sem g) = Some c"
    by (auto simp: waiter_valid_def split: option.splits)
  let ?w1 = "visit_spec q m a w"
  have unfold: "notifyAll_spec q m (a # ps) w = notifyAll_spec q m ps ?w1"
    by (simp add: notifyAll_spec_def)
  have valid: "\<forall>a' \<in> set ps. waiter_valid ?w1 a'"
    using Cons.prems(1) by (simp add: visit_spec_valid)
  show ?case
  proof (cases "sem g = s")
    case True
    with Cons.prems(2) g have "revents g = 0" "events g AND m = 0" by auto
    with g have same: "?w1 = w" by (rule visit_spec_idle)
    from Cons.IH [of w] Cons.prems same show ?thesis by (simp add: unfold)
  next
    case False
    have quiet: "\<forall>a' \<in> set ps. \<forall>g'. fdmem ?w1 a' = Some g' \<and> sem g' = s \<longrightarrow>
                   revents g' = 0 \<and> events g' AND m = 0"
      using Cons.prems(2) False by (auto simp: visit_spec_fdmem [OF g])
    from Cons.IH [OF valid quiet] visit_spec_other_sem [OF g False, of q m]
    show ?thesis by (simp add: unfold)
  qed
qed

lemma three_waiters_ok: "table_ok three_waiters"
  by (simp add: table_ok_def three_waiters_def new_cdev_def)

lemma three_waiters_occupied: "occupied (pollset three_waiters) = [1, 2, 3]"
  by (simp add: three_waiters_def)

lemma three_waiters_valid:
  "\<forall>p \<in> set (occupied (pollset three_waiters)). waiter_valid three_waiters_world p"
  by (simp add: three_waiters_occupied waiter_valid_def three_waiters_world_def)

lemma new_cdev_ok: "table_ok (new_cdev name)"
  by (simp add: table_ok_def new_cdev_def)

lemma three_waiters_spec_run:
  "notifyAll_spec True EVENT_READ [1, 2, 3] three_waiters_world = three_waiters_notified"
  by (simp add: notifyAll_spec_def visit_spec_def three_waiters_world_def
      three_waiters_notified_def EVENT_READ_def EVENT_WRITE_def Let_def fun_upd_twist)

lemma three_waiters_spec_run_blind:
  "notifyAll_spec False EVENT_READ [1, 2, 3] three_waiters_world = three_waiters_notified_blind"
  by (simp add: notifyAll_spec_def visit_spec_def three_waiters_world_def
      three_waiters_notified_blind_def EVENT_READ_def EVENT_WRITE_def Let_def fun_upd_twist)

lemma three_waiters_run:
  "poll_notify NuttX three_waiters EVENT_READ three_waiters_world = Inr three_waiters_notified"
proof -
  have "\<forall>p \<in> set (occupied (drop 0 (pollset three_waiters))). waiter_valid three_waiters_world p"
    using three_waiters_valid by (simp only: drop_0)
  from poll_notify_loop_spec [OF three_waiters_ok this, of NuttX EVENT_READ]
  show ?thesis
    by (simp only: poll_notify_def drop_0 three_waiters_occupied count_queryable.simps
        three_waiters_spec_run)
qed

text \<open>
  C1. \<^verbatim>\<open>poll_notify\<close> (notifyAll) with event mask \<open>m\<close>, on a well-formed table whose
  registered waiters are valid memory: the call visits the occupied slots in slot order and
  skips the empty ones (it equals the fold of the visit over the occupied slots); with no
  occupied slot it returns the world unchanged; every registered waiter ends with its ready
  events OR-ed with (events of interest AND \<open>m\<close>); and one visit ORs that intersection into
  the ready events and posts the wake semaphore exactly once if and only if the resulting
  ready events are non-empty and the queried count is at most 0 or the count is not
  queryable.
\<close>

theorem poll_notify_visits_in_slot_order:
  fixes d :: "'c::len cdev" and w :: "'e::len world"
  assumes "table_ok d" and "\<forall>p \<in> set (occupied (pollset d)). waiter_valid w p"
  shows "poll_notify b d m w = Inr (notifyAll_spec (count_queryable b) m (occupied (pollset d)) w) \<and>
         (occupied (pollset d) = [] \<longrightarrow> poll_notify b d m w = Inr w) \<and>
         (\<forall>p \<in> set (occupied (pollset d)). \<forall>f. fdmem w p = Some f \<longrightarrow>
            fdmem (notifyAll_spec (count_queryable b) m (occupied (pollset d)) w) p =
              Some (f\<lparr>revents := revents f OR (events f AND m)\<rparr>)) \<and>
         (\<forall>p f c w0. fdmem w0 p = Some f \<and> semmem w0 (sem f) = Some c \<longrightarrow>
            poll_notify_one b p m w0 =
              Inr (w0\<lparr>fdmem := (fdmem w0)(p \<mapsto> f\<lparr>revents := revents f OR (events f AND m)\<rparr>),
                       semmem := (if revents f OR (events f AND m) \<noteq> 0 \<and> (c \<le> 0 \<or> \<not> count_queryable b)
                                  then (semmem w0)(sem f \<mapsto> c + 1) else semmem w0),
                       calls := calls w0 @
                                  (if revents f OR (events f AND m) \<noteq> 0 \<and> (c \<le> 0 \<or> \<not> count_queryable b)
                                   then [SemPost (sem f)] else [])\<rparr>))"
proof (intro conjI ballI allI impI)
  have "poll_notify_loop b d m 0 w = Inr (notifyAll_spec (count_queryable b) m (occupied (drop 0 (pollset d))) w)"
    using assms by (intro poll_notify_loop_spec) simp_all
  then show run: "poll_notify b d m w = Inr (notifyAll_spec (count_queryable b) m (occupied (pollset d)) w)"
    by (simp add: poll_notify_def)
  show "poll_notify b d m w = Inr w" if "occupied (pollset d) = []"
    using run that by (simp add: notifyAll_spec_def)
next
  fix p f
  assume "p \<in> set (occupied (pollset d))" "fdmem w p = Some f"
  then show "fdmem (notifyAll_spec (count_queryable b) m (occupied (pollset d)) w) p =
              Some (f\<lparr>revents := revents f OR (events f AND m)\<rparr>)"
    using notifyAll_spec_fdmem [OF assms(2), of "count_queryable b" m p] by simp
next
  fix p f c and w0 :: "'e world"
  assume "fdmem w0 p = Some f \<and> semmem w0 (sem f) = Some c"
  then show "poll_notify_one b p m w0 =
              Inr (w0\<lparr>fdmem := (fdmem w0)(p \<mapsto> f\<lparr>revents := revents f OR (events f AND m)\<rparr>),
                       semmem := (if revents f OR (events f AND m) \<noteq> 0 \<and> (c \<le> 0 \<or> \<not> count_queryable b)
                                  then (semmem w0)(sem f \<mapsto> c + 1) else semmem w0),
                       calls := calls w0 @
                                  (if revents f OR (events f AND m) \<noteq> 0 \<and> (c \<le> 0 \<or> \<not> count_queryable b)
                                   then [SemPost (sem f)] else [])\<rparr>)"
    by (cases b)
      (auto simp: poll_notify_one_def sem_value_def px4_sem_getvalue_def px4_sem_post_def Let_def)
qed


theorem poll_notify_visits_in_slot_order_witness:
  "poll_notify NuttX three_waiters EVENT_READ three_waiters_world = Inr three_waiters_notified \<and>
   poll_notify (Posix False) three_waiters EVENT_READ three_waiters_world =
     Inr three_waiters_notified_blind \<and>
   poll_notify NuttX (new_cdev None :: 16 cdev) EVENT_READ three_waiters_world =
     Inr three_waiters_world"
proof -
  from poll_notify_visits_in_slot_order
         [OF three_waiters_ok three_waiters_valid, where b = NuttX and m = EVENT_READ]
    three_waiters_spec_run
  have 1: "poll_notify NuttX three_waiters EVENT_READ three_waiters_world =
             Inr three_waiters_notified"
    by (simp add: three_waiters_occupied)
  from poll_notify_visits_in_slot_order
         [OF three_waiters_ok three_waiters_valid, where b = "Posix False" and m = EVENT_READ]
    three_waiters_spec_run_blind
  have 2: "poll_notify (Posix False) three_waiters EVENT_READ three_waiters_world =
             Inr three_waiters_notified_blind"
    by (simp add: three_waiters_occupied)
  have "\<forall>p \<in> set (occupied (pollset (new_cdev None :: 16 cdev))). waiter_valid three_waiters_world p"
    by (simp add: new_cdev_def)
  from poll_notify_visits_in_slot_order [OF new_cdev_ok this, where b = NuttX and m = EVENT_READ]
  have 3: "poll_notify NuttX (new_cdev None :: 16 cdev) EVENT_READ three_waiters_world =
             Inr three_waiters_world"
    by (simp add: new_cdev_def notifyAll_spec_def)
  from 1 2 3 show ?thesis by simp
qed

text \<open>
  C8. A registered waiter whose events of interest do not intersect the mask \<open>m\<close>: the whole
  \<^verbatim>\<open>poll_notify(m)\<close> leaves its record, the ready events with it, unchanged. If its ready
  events were empty before the call and no other registered waiter shares its semaphore, the
  call neither changes the count of that semaphore nor posts it. Its own visit posts the
  semaphore exactly when the ready events were already non-empty before and the count is at
  most 0 or not queryable.
\<close>

theorem poll_notify_disjoint_interest:
  fixes d :: "'c::len cdev" and w :: "'e::len world"
  assumes "table_ok d" and "\<forall>a \<in> set (occupied (pollset d)). waiter_valid w a"
    and "p \<in> set (occupied (pollset d))" and "fdmem w p = Some f"
    and "semmem w (sem f) = Some c" and "events f AND m = 0"
  shows "(\<exists>w'. poll_notify b d m w = Inr w' \<and> fdmem w' p = Some f \<and>
            (revents f = 0 \<and>
             (\<forall>a \<in> set (occupied (pollset d)). \<forall>g. fdmem w a = Some g \<and> sem g = sem f \<longrightarrow> a = p)
             \<longrightarrow> semmem w' (sem f) = Some c \<and>
                 filter (\<lambda>x. x = SemPost (sem f)) (calls w') =
                 filter (\<lambda>x. x = SemPost (sem f)) (calls w))) \<and>
         poll_notify_one b p m w =
           Inr (if revents f \<noteq> 0 \<and> (c \<le> 0 \<or> \<not> count_queryable b)
                then w\<lparr>semmem := (semmem w)(sem f \<mapsto> c + 1),
                       calls := calls w @ [SemPost (sem f)]\<rparr>
                else w)"
proof -
  let ?ps = "occupied (pollset d)"
  let ?w' = "notifyAll_spec (count_queryable b) m ?ps w"
  have "poll_notify_loop b d m 0 w = Inr (notifyAll_spec (count_queryable b) m (occupied (drop 0 (pollset d))) w)"
    using assms(1,2) by (intro poll_notify_loop_spec) simp_all
  then have run: "poll_notify b d m w = Inr ?w'" by (simp add: poll_notify_def)
  have same: "f\<lparr>revents := revents f OR (events f AND m)\<rparr> = f"
    using assms(6) by simp
  have rec: "fdmem ?w' p = Some f"
    using notifyAll_spec_fdmem [OF assms(2), of "count_queryable b" m p] assms(3,4) same by simp
  have quiet: "semmem ?w' (sem f) = Some c \<and>
                 filter (\<lambda>x. x = SemPost (sem f)) (calls ?w') =
                 filter (\<lambda>x. x = SemPost (sem f)) (calls w)"
    if r0: "revents f = 0"
      and alone: "\<forall>a \<in> set ?ps. \<forall>g. fdmem w a = Some g \<and> sem g = sem f \<longrightarrow> a = p"
  proof -
    have "\<forall>a \<in> set ?ps. \<forall>g. fdmem w a = Some g \<and> sem g = sem f \<longrightarrow>
            revents g = 0 \<and> events g AND m = 0"
      using alone assms(4,6) r0 by auto
    from notifyAll_spec_sem_untouched [OF assms(2) this, of "count_queryable b"] assms(5) show ?thesis by simp
  qed
  have one: "poll_notify_one b p m w =
           Inr (if revents f \<noteq> 0 \<and> (c \<le> 0 \<or> \<not> count_queryable b)
                then w\<lparr>semmem := (semmem w)(sem f \<mapsto> c + 1),
                       calls := calls w @ [SemPost (sem f)]\<rparr>
                else w)"
    using assms(4,5,6)
    by (cases b)
      (auto simp: poll_notify_one_def sem_value_def px4_sem_getvalue_def px4_sem_post_def Let_def
        map_upd_triv)
  from run rec quiet one show ?thesis by blast
qed


theorem poll_notify_disjoint_interest_witness:
  "fdmem three_waiters_notified 2 = Some \<lparr>events = EVENT_WRITE, revents = 0, sem = 12, priv = 0\<rparr> \<and>
   semmem three_waiters_notified 12 = Some 0 \<and>
   filter (\<lambda>x. x = SemPost 12) (calls three_waiters_notified) = [] \<and>
   poll_notify_one NuttX 2 EVENT_READ three_waiters_world = Inr three_waiters_world"
proof -
  let ?f = "\<lparr>events = EVENT_WRITE, revents = 0, sem = 12, priv = 0\<rparr> :: 16 pollfd"
  have p: "2 \<in> set (occupied (pollset three_waiters))" by (simp add: three_waiters_occupied)
  have f: "fdmem three_waiters_world 2 = Some ?f" by (simp add: three_waiters_world_def)
  have c: "semmem three_waiters_world (sem ?f) = Some 0" by (simp add: three_waiters_world_def)
  have m: "events ?f AND EVENT_READ = 0" by (simp add: EVENT_READ_def EVENT_WRITE_def)
  have alone: "\<forall>a \<in> set (occupied (pollset three_waiters)).
                 \<forall>g. fdmem three_waiters_world a = Some g \<and> sem g = sem ?f \<longrightarrow> a = 2"
    by (auto simp: three_waiters_occupied three_waiters_world_def)
  from poll_notify_disjoint_interest [OF three_waiters_ok three_waiters_valid p f c m, where b = NuttX]
    three_waiters_run alone
  have "fdmem three_waiters_notified 2 = Some ?f \<and>
        semmem three_waiters_notified (sem ?f) = Some 0 \<and>
        filter (\<lambda>x. x = SemPost (sem ?f)) (calls three_waiters_notified) =
          filter (\<lambda>x. x = SemPost (sem ?f)) (calls three_waiters_world) \<and>
        poll_notify_one NuttX 2 EVENT_READ three_waiters_world = Inr three_waiters_world"
    by auto
  then show ?thesis by (simp add: three_waiters_world_def)
qed

text \<open>
  The claim as first stated says the semaphore is never posted, whatever the waiter's earlier
  ready events. The waiter below waits for reading only and is notified of writing; its ready
  events are non-empty from before and its count is 0, and the call posts its semaphore.
\<close>

theorem poll_notify_stale_ready_counterexample:
  "events \<lparr>events = EVENT_READ, revents = EVENT_READ, sem = 11, priv = 0\<rparr> AND EVENT_WRITE = 0 \<and>
   poll_notify NuttX stale_waiter EVENT_WRITE stale_waiter_world =
     Inr (stale_waiter_world\<lparr>semmem := [11 \<mapsto> 1], calls := [SemPost 11]\<rparr>)"
  by (simp add: poll_notify_def stale_waiter_def stale_waiter_world_def new_cdev_def rd_slot_def
      poll_notify_one_def sem_value_def px4_sem_post_def Let_def EVENT_READ_def EVENT_WRITE_def)

subsection \<open>Registration through poll\<close>

lemma store_poll_waiter_returns:
  assumes "table_ok d"
  shows "\<exists>ret d'. store_poll_waiter a d r = Inr (ret, d') \<and>
           ((\<forall>j < unat (max_pollwaiters d). pollset d ! j \<noteq> Some nullptr) \<and>
            128 \<le> unat (max_pollwaiters d) \<longrightarrow> ret = - ENOMEM \<and> d' = d)"
proof -
  from store_poll_waiter_cases [OF assms, of a r] show ?thesis
  proof (elim disjE exE conjE)
    fix k assume "k < unat (max_pollwaiters d)" "pollset d ! k = Some nullptr"
      "store_poll_waiter a d r = Inr (PX4_OK, d\<lparr>pollset := (pollset d)[k := Some r]\<rparr>)"
    then show ?thesis by auto
  next
    assume "\<forall>j < unat (max_pollwaiters d). pollset d ! j \<noteq> Some nullptr"
      "store_poll_waiter a d r =
               (if 128 \<le> unat (max_pollwaiters d) \<or> \<not> a then Inr (- ENOMEM, d)
                else Inr (PX4_OK, d\<lparr>pollset := pollset d @ Some r #
                                      replicate (unat (grown_count (max_pollwaiters d))
                                                   - unat (max_pollwaiters d) - 1) (Some nullptr),
                            max_pollwaiters := grown_count (max_pollwaiters d)\<rparr>))"
    then show ?thesis by (cases "128 \<le> unat (max_pollwaiters d) \<or> \<not> a") simp_all
  qed
qed

lemma one_reader_setup:
  "store_poll_waiter True (new_cdev None :: 16 cdev) 1 =
     Inr (PX4_OK, (new_cdev None)\<lparr>pollset := [Some 1], max_pollwaiters := 1\<rparr>)"
proof -
  have "table_ok (new_cdev None :: 16 cdev)" by (rule new_cdev_ok)
  moreover have "\<forall>j < unat (max_pollwaiters (new_cdev None :: 16 cdev)).
                   pollset (new_cdev None :: 16 cdev) ! j \<noteq> Some nullptr"
    by (simp add: new_cdev_def)
  moreover have "unat (max_pollwaiters (new_cdev None :: 16 cdev)) < 128"
    by (simp add: new_cdev_def)
  ultimately have "store_poll_waiter True (new_cdev None :: 16 cdev) 1 =
           Inr (PX4_OK, (new_cdev None :: 16 cdev)\<lparr>pollset := pollset (new_cdev None :: 16 cdev) @ Some 1 #
                                      replicate (unat (grown_count (max_pollwaiters (new_cdev None :: 16 cdev)))
                                                   - unat (max_pollwaiters (new_cdev None :: 16 cdev)) - 1) (Some nullptr),
                            max_pollwaiters := grown_count (max_pollwaiters (new_cdev None :: 16 cdev))\<rparr>)"
    by (rule store_poll_waiter_grow)
  then show ?thesis by (simp add: new_cdev_def grown_count_def)
qed

lemma table_max_refuses: "store_poll_waiter True table_max 1 = Inr (- ENOMEM, table_max)"
proof -
  have "\<forall>j < unat (max_pollwaiters table_max). pollset table_max ! j \<noteq> Some nullptr"
    by (simp add: table_max_def)
  moreover have "128 \<le> unat (max_pollwaiters table_max)" by (simp add: table_max_def)
  ultimately show ?thesis by (rule store_poll_waiter_exhausted [OF table_max_ok])
qed

text \<open>
  C2. \<^verbatim>\<open>poll\<close> with \<^verbatim>\<open>setup = true\<close>, on a well-formed table and a valid waiter record:
  the file pointer is stored into \<^verbatim>\<open>priv\<close> whether or not the registration succeeds;
  \<^verbatim>\<open>store_poll_waiter\<close> is called and its outcome and registry are what \<^verbatim>\<open>poll\<close>
  returns; if it succeeded, (events of interest AND \<^verbatim>\<open>poll_state\<close>) is OR-ed into the ready
  events and, if the result is non-empty, the semaphore is posted within the call; a full
  registry at the maximum capacity makes \<^verbatim>\<open>poll\<close> return \<^verbatim>\<open>-ENOMEM\<close>. The default
  \<^verbatim>\<open>poll_state\<close> returns the empty mask.
\<close>

theorem poll_setup_reports_current_state:
  fixes d :: "'c::len cdev" and w :: "'e::len world"
  assumes "table_ok d" and "fdmem w fds = Some f" and "semmem w (sem f) = Some c"
  shows "(\<exists>ret d'. store_poll_waiter a d fds = Inr (ret, d') \<and>
            poll hook a filep fds True (d, w) =
              Inr (ret, d',
                   if ret = PX4_OK
                   then w\<lparr>fdmem := (fdmem w)(fds \<mapsto>
                                      f\<lparr>priv := filep,
                                        revents := revents f OR (events f AND hook filep)\<rparr>),
                          semmem := (if revents f OR (events f AND hook filep) \<noteq> 0
                                     then (semmem w)(sem f \<mapsto> c + 1) else semmem w),
                          calls := calls w @
                                     (if revents f OR (events f AND hook filep) \<noteq> 0
                                      then [SemPost (sem f)] else [])\<rparr>
                   else w\<lparr>fdmem := (fdmem w)(fds \<mapsto> f\<lparr>priv := filep\<rparr>)\<rparr>) \<and>
            ((\<forall>j < unat (max_pollwaiters d). pollset d ! j \<noteq> Some nullptr) \<and>
             128 \<le> unat (max_pollwaiters d) \<longrightarrow> ret = - ENOMEM \<and> d' = d)) \<and>
         poll_state filep = (0 :: 'e word)"
proof -
  from store_poll_waiter_returns [OF assms(1), of a fds] obtain ret d'
    where st: "store_poll_waiter a d fds = Inr (ret, d')"
      and full: "(\<forall>j < unat (max_pollwaiters d). pollset d ! j \<noteq> Some nullptr) \<and>
            128 \<le> unat (max_pollwaiters d) \<longrightarrow> ret = - ENOMEM \<and> d' = d"
    by blast
  have run: "poll hook a filep fds True (d, w) =
              Inr (ret, d',
                   if ret = PX4_OK
                   then w\<lparr>fdmem := (fdmem w)(fds \<mapsto>
                                      f\<lparr>priv := filep,
                                        revents := revents f OR (events f AND hook filep)\<rparr>),
                          semmem := (if revents f OR (events f AND hook filep) \<noteq> 0
                                     then (semmem w)(sem f \<mapsto> c + 1) else semmem w),
                          calls := calls w @
                                     (if revents f OR (events f AND hook filep) \<noteq> 0
                                      then [SemPost (sem f)] else [])\<rparr>
                   else w\<lparr>fdmem := (fdmem w)(fds \<mapsto> f\<lparr>priv := filep\<rparr>)\<rparr>)"
    using st assms(2,3) by (simp add: poll_def px4_sem_post_def Let_def)
  from st run full show ?thesis by (simp add: poll_state_def)
qed

theorem poll_setup_reports_current_state_witness:
  "poll readable_now True 42 1 True (new_cdev None :: 16 cdev, one_reader_world) =
     Inr (PX4_OK, (new_cdev None)\<lparr>pollset := [Some 1], max_pollwaiters := 1\<rparr>,
          \<lparr>fdmem = [1 \<mapsto> \<lparr>events = EVENT_READ, revents = EVENT_READ, sem = 11, priv = 42\<rparr>],
           semmem = [11 \<mapsto> 1],
           calls = [SemPost 11]\<rparr>) \<and>
   poll readable_now True 42 1 True (table_max, one_reader_world) =
     Inr (- ENOMEM, table_max,
          \<lparr>fdmem = [1 \<mapsto> \<lparr>events = EVENT_READ, revents = 0, sem = 11, priv = 42\<rparr>],
           semmem = [11 \<mapsto> 0],
           calls = []\<rparr>)"
proof -
  let ?f = "\<lparr>events = EVENT_READ, revents = 0, sem = 11, priv = 0\<rparr> :: 16 pollfd"
  have f: "fdmem one_reader_world 1 = Some ?f" by (simp add: one_reader_world_def)
  have c: "semmem one_reader_world (sem ?f) = Some 0" by (simp add: one_reader_world_def)
  have ne: "- ENOMEM \<noteq> PX4_OK" "EVENT_READ \<noteq> 0"
    by (simp_all add: ENOMEM_def PX4_OK_def EVENT_READ_def)
  have fresh: "table_ok (new_cdev None :: 16 cdev)" by (rule new_cdev_ok)
  from poll_setup_reports_current_state
         [OF fresh f c, where a = True and hook = readable_now and filep = 42]
    one_reader_setup ne
  have 1: "poll readable_now True 42 1 True (new_cdev None :: 16 cdev, one_reader_world) =
     Inr (PX4_OK, (new_cdev None)\<lparr>pollset := [Some 1], max_pollwaiters := 1\<rparr>,
          \<lparr>fdmem = [1 \<mapsto> \<lparr>events = EVENT_READ, revents = EVENT_READ, sem = 11, priv = 42\<rparr>],
           semmem = [11 \<mapsto> 1],
           calls = [SemPost 11]\<rparr>)"
    by (auto simp: one_reader_world_def readable_now_def)
  from poll_setup_reports_current_state
         [OF table_max_ok f c, where a = True and hook = readable_now and filep = 42]
    table_max_refuses ne
  have 2: "poll readable_now True 42 1 True (table_max, one_reader_world) =
     Inr (- ENOMEM, table_max,
          \<lparr>fdmem = [1 \<mapsto> \<lparr>events = EVENT_READ, revents = 0, sem = 11, priv = 42\<rparr>],
           semmem = [11 \<mapsto> 0],
           calls = []\<rparr>)"
    by (auto simp: one_reader_world_def readable_now_def)
  from 1 2 show ?thesis by simp
qed

subsection \<open>The lifecycle\<close>

lemma life_step_spec:
  "life_step x (d, w) =
     (d\<lparr>open_count := fst (life_spec [x] (open_count d))\<rparr>,
      w\<lparr>calls := calls w @ snd (life_spec [x] (open_count d))\<rparr>)"
  by (cases x) (simp_all add: open_dev_def close_def Let_def word_greater_zero_iff)

lemma life_spec_Cons:
  "life_spec (x # ops) n =
     (fst (life_spec ops (fst (life_spec [x] n))),
      snd (life_spec [x] n) @ snd (life_spec ops (fst (life_spec [x] n))))"
  by (cases x) (simp_all add: Let_def)

lemma life_run_spec:
  "life_run ops (d, w) =
     (d\<lparr>open_count := fst (life_spec ops (open_count d))\<rparr>,
      w\<lparr>calls := calls w @ snd (life_spec ops (open_count d))\<rparr>)"
proof (induction ops arbitrary: d w)
  case Nil
  show ?case by simp
next
  case (Cons x ops)
  show ?case
    by (simp only: life_run.simps life_step_spec Cons.IH life_spec_Cons [of x ops])
      simp
qed

lemma life_run_append: "life_run (xs @ ys) s = life_run ys (life_run xs s)"
  by (induction xs arbitrary: s) simp_all

lemma close_no_underflow:
  "unat (open_count (fst (life_step (Close hook filep) (d, w)))) = unat (open_count d) - 1"
  by (simp add: close_def Let_def word_greater_zero_iff unat_minus_one)


lemma busy_day_spec:
  "life_spec busy_day (0 :: 16 word) = (0, [OpenFirst 1, OpenFirst 2, CloseLast 5])"
  by (simp add: busy_day_def accept_def decline_def PX4_OK_def EINVAL_def Let_def)

text \<open>
  C4. \<^verbatim>\<open>open\<close>: the open count is incremented; the first-open hook is invoked if and only
  if the count goes from 0 to 1; if the hook fails the increment is rolled back, so the
  device is as before the call, and \<^verbatim>\<open>open\<close> returns the hook's error; otherwise
  \<^verbatim>\<open>open\<close> returns OK. The default hook \<^verbatim>\<open>open_first\<close> returns OK.
\<close>

theorem open_counts_and_calls_open_first:
  "open_dev hook filep (d, w) =
     (if open_count d = 0
      then if hook filep = PX4_OK
           then (PX4_OK, d\<lparr>open_count := 1\<rparr>, w\<lparr>calls := calls w @ [OpenFirst filep]\<rparr>)
           else (hook filep, d, w\<lparr>calls := calls w @ [OpenFirst filep]\<rparr>)
      else (PX4_OK, d\<lparr>open_count := open_count d + 1\<rparr>, w)) \<and>
   open_first filep = PX4_OK"
  by (simp add: open_dev_def open_first_def Let_def)

text \<open>
  C5. \<^verbatim>\<open>close\<close>: at open count 0 it fails with \<^verbatim>\<open>-EBADF\<close> and changes nothing; otherwise
  the count is decremented by one, and the last-close hook is invoked if and only if the count
  reaches 0; the hook's return value is the result of \<^verbatim>\<open>close\<close>, and the decrement stays
  whatever the hook returns. The default hook \<^verbatim>\<open>close_last\<close> returns OK.
\<close>

theorem close_counts_and_calls_close_last:
  "close hook filep (d, w) =
     (if open_count d = 0 then (- EBADF, d, w)
      else if open_count d = 1
           then (hook filep, d\<lparr>open_count := 0\<rparr>, w\<lparr>calls := calls w @ [CloseLast filep]\<rparr>)
           else (PX4_OK, d\<lparr>open_count := open_count d - 1\<rparr>, w)) \<and>
   close_last filep = PX4_OK"
  by (simp add: close_def close_last_def Let_def word_greater_zero_iff)

text \<open>
  C6. Every finite sequence of \<^verbatim>\<open>open\<close>/\<^verbatim>\<open>close\<close> calls, from any open count and so from
  0: the code ends with the count and the hook calls of the spec's lifecycle, in which
  \<^verbatim>\<open>open_first\<close> is called once for each open that takes the count from 0 to 1,
  \<^verbatim>\<open>close_last\<close> once for each close that takes it to 0, and neither on any other call;
  and no close takes the count below 0: a close leaves the count, read as a natural number,
  one lower, or at 0 when it was 0.
\<close>

theorem hooks_fire_once_per_crossing:
  fixes d :: "'c::len cdev" and w :: "'e::len world"
  shows "life_run ops (d, w) =
           (d\<lparr>open_count := fst (life_spec ops (open_count d))\<rparr>,
            w\<lparr>calls := calls w @ snd (life_spec ops (open_count d))\<rparr>) \<and>
         (\<forall>pre hook filep post. ops = pre @ Close hook filep # post \<longrightarrow>
            unat (open_count (fst (life_run (pre @ [Close hook filep]) (d, w)))) =
            unat (open_count (fst (life_run pre (d, w)))) - 1)"
proof (intro conjI allI impI)
  show "life_run ops (d, w) =
           (d\<lparr>open_count := fst (life_spec ops (open_count d))\<rparr>,
            w\<lparr>calls := calls w @ snd (life_spec ops (open_count d))\<rparr>)"
    by (rule life_run_spec)
next
  fix pre hook filep post
  obtain d1 w1 where s1: "life_run pre (d, w) = (d1, w1)" by (cases "life_run pre (d, w)")
  have "life_run (pre @ [Close hook filep]) (d, w) = life_step (Close hook filep) (d1, w1)"
    by (simp only: life_run_append s1 life_run.simps)
  then show "unat (open_count (fst (life_run (pre @ [Close hook filep]) (d, w)))) =
            unat (open_count (fst (life_run pre (d, w)))) - 1"
    by (simp only: close_no_underflow s1 fst_conv)
qed

theorem hooks_fire_once_per_crossing_witness:
  "life_run busy_day (new_cdev None :: 16 cdev, no_world) =
     (new_cdev None, no_world\<lparr>calls := [OpenFirst 1, OpenFirst 2, CloseLast 5]\<rparr>) \<and>
   open_count (fst (life_run (take 5 busy_day) (new_cdev None :: 16 cdev, no_world))) = 0 \<and>
   open_count (fst (life_run busy_day (new_cdev None :: 16 cdev, no_world))) = 0"
proof -
  note inst = hooks_fire_once_per_crossing [of busy_day "new_cdev None :: 16 cdev" no_world]
  have run: "life_run busy_day (new_cdev None :: 16 cdev, no_world) =
     (new_cdev None, no_world\<lparr>calls := [OpenFirst 1, OpenFirst 2, CloseLast 5]\<rparr>)"
    using inst by (simp add: busy_day_spec new_cdev_def no_world_def)
  have shape: "busy_day = take 5 busy_day @ Close accept 6 # []"
    by (simp add: busy_day_def)
  have five: "open_count (fst (life_run (take 5 busy_day) (new_cdev None :: 16 cdev, no_world))) = 0"
    by (simp add: busy_day_def accept_def decline_def open_dev_def close_def new_cdev_def
        PX4_OK_def EINVAL_def Let_def)
  from inst shape
  have "unat (open_count (fst (life_run (take 5 busy_day @ [Close accept 6])
                                  (new_cdev None :: 16 cdev, no_world)))) =
        unat (open_count (fst (life_run (take 5 busy_day) (new_cdev None :: 16 cdev, no_world)))) - 1"
    by blast
  with five shape have "unat (open_count (fst (life_run busy_day
                                  (new_cdev None :: 16 cdev, no_world)))) = 0"
    by simp
  then have "open_count (fst (life_run busy_day (new_cdev None :: 16 cdev, no_world))) = 0"
    by (simp add: unat_eq_0)
  with run five show ?thesis by simp
qed


text \<open>
  C9. \<^verbatim>\<open>init\<close>: if the device name is not null, \<^verbatim>\<open>register_driver\<close> is called with it,
  whether or not the registration flag is already set; if the bind succeeds the flag is set
  and OK is returned; if the bind fails \<^verbatim>\<open>PX4_ERROR\<close> is returned and the flag is left as
  it was. If the name is null nothing is called, \<^verbatim>\<open>PX4_ERROR\<close> is returned and the flag is
  left as it was.
\<close>

theorem init_binds_whenever_named:
  fixes d :: "'c::len cdev" and w :: "'e::len world"
  shows "(\<forall>name. devname d = Some name \<and> register_driver name = PX4_OK \<longrightarrow>
            init register_driver (d, w) =
              (PX4_OK, d\<lparr>registered := True\<rparr>, w\<lparr>calls := calls w @ [RegisterDriver name]\<rparr>)) \<and>
         (\<forall>name. devname d = Some name \<and> register_driver name \<noteq> PX4_OK \<longrightarrow>
            init register_driver (d, w) =
              (PX4_ERROR, d, w\<lparr>calls := calls w @ [RegisterDriver name]\<rparr>)) \<and>
         (devname d = None \<longrightarrow> init register_driver (d, w) = (PX4_ERROR, d, w))"
  by (simp add: init_def Let_def)

theorem init_binds_whenever_named_witness:
  "init bind_ok (named_dev, no_world) =
     (PX4_OK, named_dev\<lparr>registered := True\<rparr>, no_world\<lparr>calls := [RegisterDriver ''/dev/example'']\<rparr>) \<and>
   init bind_refused (named_dev, no_world) =
     (PX4_ERROR, named_dev, no_world\<lparr>calls := [RegisterDriver ''/dev/example'']\<rparr>) \<and>
   init bind_ok (new_cdev None :: 16 cdev, no_world) = (PX4_ERROR, new_cdev None, no_world)"
proof -
  have n: "devname named_dev = Some ''/dev/example''" by (simp add: named_dev_def new_cdev_def)
  have "PX4_ERROR \<noteq> PX4_OK" by (simp add: PX4_ERROR_def PX4_OK_def)
  with init_binds_whenever_named [of named_dev bind_ok no_world]
    init_binds_whenever_named [of named_dev bind_refused no_world]
    init_binds_whenever_named [of "new_cdev None :: 16 cdev" bind_ok no_world] n
  show ?thesis
    by (simp add: bind_ok_def bind_refused_def no_world_def new_cdev_def)
qed

text \<open>
  The claim as first stated says a registered device is not bound again. \<^verbatim>\<open>init\<close> never
  reads the flag: a second \<^verbatim>\<open>init\<close> on a registered device calls \<^verbatim>\<open>register_driver\<close>
  again, and returns OK when the namespace accepts.
\<close>

theorem init_twice_counterexample:
  "registered (fst (snd (init bind_ok (named_dev, no_world)))) \<and>
   fst (init bind_ok (snd (init bind_ok (named_dev, no_world)))) = PX4_OK \<and>
   calls (snd (snd (init bind_ok (snd (init bind_ok (named_dev, no_world)))))) =
     [RegisterDriver ''/dev/example'', RegisterDriver ''/dev/example'']"
  by (simp add: init_def named_dev_def new_cdev_def no_world_def bind_ok_def Let_def)

end
